theory Spec2Isabelle
  imports Main "HOL-Library.Word" "HOL-Library.Sublist" "HOL-Library.List_Lexorder"
begin

unbundle bit_operations_syntax

section \<open>The X.509 certificate bundle of bell (main/io/X509Bundle.cpp)\<close>

text \<open>
  The trust store keeps a private copy of a binary bundle of (subject name, public key)
  entries, an index of pointers to the entries, the number of entries and a flag that is set
  once a bundle has been loaded. \<open>init\<close> loads a bundle, \<open>crtVerifyCallback\<close> is the
  verification hook of the TLS handshake: it looks the certificate's issuer up by binary
  search and checks the certificate's signature with the key found
  (\<open>crtCheckCertificate\<close>).
\<close>

subsection \<open>Bytes, memory and pointers\<close>

type_synonym u8 = "8 word"
type_synonym u32 = "32 word"

text \<open>
  A pointer to bytes is modelled by the memory readable from it: the byte at each offset.
  The handshake engine hands the callback pointers into its own buffers, and \<open>memcmp\<close>
  reads as many bytes as it is told to, whatever the length recorded beside the pointer is;
  so the memory at a pointer is total, and the bytes after the recorded length are
  whatever follows in memory.
\<close>

type_synonym mem = "nat \<Rightarrow> u8"

definition read_mem :: "mem \<Rightarrow> nat \<Rightarrow> u8 list" where
  "read_mem m n = map m [0..<n]"

text \<open>
  A pointer into the vector \<open>bundleBytes\<close> is an offset from \<open>bundleBytes.data()\<close>.
  Reading outside the vector is undefined behaviour in the source and unspecified here
  (\<open>bs ! i\<close> with \<open>i \<ge> length bs\<close>).
\<close>

definition at_off :: "u8 list \<Rightarrow> nat \<Rightarrow> mem" where
  "at_off bs off k = bs ! (off + k)"

text \<open>\<^verbatim>\<open>b0 << 8 | b1\<close> on two bytes, promoted to \<open>int\<close> by C: a value below 65536.\<close>

definition be16 :: "u8 \<Rightarrow> u8 \<Rightarrow> nat" where
  "be16 b0 b1 = push_bit 8 (unat b0) OR unat b1"

text \<open>
  \<open>memcmp s1 s2 n\<close>: the first \<open>n\<close> bytes of both, compared as unsigned bytes. C fixes the
  sign of the result only, and the callers use nothing else; the value here is the
  difference of the first two bytes that differ.
\<close>

fun memcmp_bytes :: "u8 list \<Rightarrow> u8 list \<Rightarrow> int" where
  "memcmp_bytes (x # xs) (y # ys) =
     (if x = y then memcmp_bytes xs ys else int (unat x) - int (unat y))"
| "memcmp_bytes _ _ = 0"

definition memcmp :: "mem \<Rightarrow> mem \<Rightarrow> nat \<Rightarrow> int" where
  "memcmp s1 s2 n = memcmp_bytes (read_mem s1 n) (read_mem s2 n)"

text \<open>\<^verbatim>\<open>x / 2\<close> on C's \<open>int\<close>: the quotient is truncated towards zero.\<close>

definition c_div2 :: "int \<Rightarrow> int" where
  "c_div2 x = (if x < 0 then - ((- x) div 2) else x div 2)"

subsection \<open>The store: the file's static variables\<close>

abbreviation (input) CRT_HEADER_OFFSET :: nat where "CRT_HEADER_OFFSET \<equiv> 4"
abbreviation (input) BUNDLE_HEADER_OFFSET :: nat where "BUNDLE_HEADER_OFFSET \<equiv> 2"

text \<open>
  \<open>bundleBytes\<close> is the vector of that name; \<open>bundle_crts\<close> is \<open>s_crt_bundle.crts\<close>
  (\<open>None\<close> is the null pointer, \<open>Some\<close> the array of entry pointers, each an offset into
  \<open>bundleBytes\<close>); \<open>bundle_num_certs\<close> is \<open>s_crt_bundle.num_certs\<close>, a \<open>uint16_t\<close> that
  only ever receives a value of \<open>be16\<close>; \<open>s_should_verify_certs\<close> is the flag that
  \<open>shouldVerify\<close> reports.
\<close>

record store =
  bundleBytes :: "u8 list"
  bundle_crts :: "nat list option"
  bundle_num_certs :: nat
  s_should_verify_certs :: bool

definition initial_store :: store where
  "initial_store =
     \<lparr>bundleBytes = [], bundle_crts = None, bundle_num_certs = 0,
      s_should_verify_certs = False\<rparr>"

definition shouldVerify :: "store \<Rightarrow> bool" where
  "shouldVerify st = s_should_verify_certs st"

subsection \<open>Loading a bundle: \<open>init\<close>\<close>

text \<open>
  The two \<open>std::runtime_error\<close>s of \<open>init\<close>: "Invalid certificate bundle" and "Unable to
  allocate memory for bundle".
\<close>

datatype error = InvalidBundle | AllocationFailure

text \<open>
  What the allocator answers is not decided by the bundle: \<open>calloc_ok\<close> says whether
  \<open>calloc\<close> returned an array, \<open>resize_ok\<close> whether \<open>bundleBytes.resize\<close> got its memory
  (when it does not, it throws and leaves the vector as it was).
\<close>

record alloc_env =
  calloc_ok :: bool
  resize_ok :: bool

text \<open>
  The loop of \<open>init\<close> over the declared entries. \<open>crts[i]\<close> is written before the bound
  check; \<open>None\<close> is the throw inside the loop.
\<close>

function walk :: "u8 list \<Rightarrow> nat \<Rightarrow> nat \<Rightarrow> nat \<Rightarrow> nat \<Rightarrow> nat list \<Rightarrow> (nat list \<times> nat) option" where
  "walk bs bundle_end num_certs i cur_crt crts =
     (if i < num_certs then
        (let crts' = crts[i := cur_crt] in
         if cur_crt + CRT_HEADER_OFFSET > bundle_end then None
         else
           (let name_len = be16 (at_off bs cur_crt 0) (at_off bs cur_crt 1);
                key_len = be16 (at_off bs cur_crt 2) (at_off bs cur_crt 3)
            in walk bs bundle_end num_certs (i + 1)
                 (cur_crt + CRT_HEADER_OFFSET + name_len + key_len) crts'))
      else Some (crts, cur_crt))"
  by pat_completeness auto
termination
  by (relation "measure (\<lambda>(bs, bundle_end, num_certs, i, cur_crt, crts). num_certs - i)") auto

declare walk.simps [simp del]

text \<open>
  \<open>init\<close> returns the outcome and the store it leaves behind, also when it throws. The
  copy into \<open>bundleBytes\<close> comes after the two allocations and before the walk.
\<close>

definition init :: "alloc_env \<Rightarrow> u8 list \<Rightarrow> store \<Rightarrow> (error + unit) \<times> store" where
  "init env x509_bundle st =
     (let bundle_size = length x509_bundle in
      if bundle_size < BUNDLE_HEADER_OFFSET + CRT_HEADER_OFFSET then (Inl InvalidBundle, st)
      else
        (let num_certs = be16 (x509_bundle ! 0) (x509_bundle ! 1) in
         if \<not> calloc_ok env then (Inl AllocationFailure, st)
         else if \<not> resize_ok env then (Inl AllocationFailure, st)
         else
           (let crts = replicate num_certs 0;
                st1 = st\<lparr>bundleBytes := x509_bundle\<rparr>;
                bundle_end = bundle_size
            in case walk (bundleBytes st1) bundle_end num_certs 0 BUNDLE_HEADER_OFFSET crts of
                 None \<Rightarrow> (Inl InvalidBundle, st1)
               | Some (crts', cur_crt) \<Rightarrow>
                   if cur_crt > bundle_end then (Inl InvalidBundle, st1)
                   else (Inr (),
                         st1\<lparr>bundle_num_certs := num_certs, bundle_crts := Some crts',
                             s_should_verify_certs := True\<rparr>))))"

subsection \<open>The certificate and the crypto library\<close>

text \<open>
  \<open>mbedtls_x509_buf\<close>: a length and a pointer. The fields of \<open>mbedtls_x509_crt\<close> that
  the code reads; the algorithm identifiers are the library's enumeration values and
  \<open>sig_opts\<close> is an opaque address.
\<close>

record x509_buf =
  buf_len :: nat
  buf_p :: mem

definition buf_bytes :: "x509_buf \<Rightarrow> u8 list" where
  "buf_bytes b = read_mem (buf_p b) (buf_len b)"

record x509_crt =
  issuer_raw :: x509_buf
  tbs :: x509_buf
  sig :: x509_buf
  sig_pk :: nat
  sig_md :: nat
  sig_opts :: nat

text \<open>
  The functions of mbedTLS that \<open>crtCheckCertificate\<close> calls are not part of the
  repository; they are parameters. \<open>'pk\<close> is a parsed key context, \<open>'mdi\<close> a digest
  descriptor. A function of the library that returns a status and fills a buffer returns
  the pair here.
\<close>

record ('pk, 'mdi) mbedtls =
  pk_parse_public_key :: "u8 list \<Rightarrow> int \<times> 'pk"
  pk_can_do :: "'pk \<Rightarrow> nat \<Rightarrow> bool"
  md_info_from_type :: "nat \<Rightarrow> 'mdi"
  md :: "'mdi \<Rightarrow> u8 list \<Rightarrow> int \<times> u8 list"
  md_get_size :: "'mdi \<Rightarrow> nat"
  pk_verify_ext :: "nat \<Rightarrow> nat \<Rightarrow> 'pk \<Rightarrow> nat \<Rightarrow> u8 list \<Rightarrow> nat \<Rightarrow> u8 list \<Rightarrow> int"

text \<open>
  What a run did, in order: the index entries the binary search compared with, and the
  calls into the crypto library. The source has no such list; it is what makes
  "performs no lookup" and "before any hashing" statements about the functions below.
\<close>

datatype event =
  Compare int
  | PkParsePublicKey
  | PkCanDo
  | MdInfoFromType
  | Md
  | MdGetSize
  | PkVerifyExt

text \<open>
  The flag bits and the error code of mbedTLS's \<open>x509.h\<close>, which is not part of the
  repository either: \<open>MBEDTLS_X509_BADCERT_EXPIRED\<close>, \<open>MBEDTLS_X509_BADCERT_NOT_TRUSTED\<close>,
  \<open>MBEDTLS_X509_BADCERT_BAD_MD\<close> and \<open>MBEDTLS_ERR_X509_FATAL_ERROR\<close>.
\<close>

definition BADCERT_EXPIRED :: u32 where "BADCERT_EXPIRED = 0x01"
definition BADCERT_NOT_TRUSTED :: u32 where "BADCERT_NOT_TRUSTED = 0x08"
definition BADCERT_BAD_MD :: u32 where "BADCERT_BAD_MD = 0x4000"
definition ERR_X509_FATAL_ERROR :: int where "ERR_X509_FATAL_ERROR = - 0x3000"

subsection \<open>The signature check: \<open>crtCheckCertificate\<close>\<close>

text \<open>Every \<open>goto cleanup\<close> is a branch that returns \<open>ret\<close> as it stands.\<close>

definition crtCheckCertificate ::
  "('pk, 'mdi) mbedtls \<Rightarrow> x509_crt \<Rightarrow> mem \<Rightarrow> nat \<Rightarrow> int \<times> event list" where
  "crtCheckCertificate L child pub_key_buf pub_key_len =
     (case pk_parse_public_key L (read_mem pub_key_buf pub_key_len) of
        (ret, parent_pk) \<Rightarrow>
          if ret \<noteq> 0 then (ret, [PkParsePublicKey])
          else if \<not> pk_can_do L parent_pk (sig_pk child)
          then (- 1, [PkParsePublicKey, PkCanDo])
          else
            (let md_info = md_info_from_type L (sig_md child) in
             case md L md_info (buf_bytes (tbs child)) of
               (ret, hash) \<Rightarrow>
                 if ret \<noteq> 0
                 then (ret, [PkParsePublicKey, PkCanDo, MdInfoFromType, Md])
                 else
                   (pk_verify_ext L (sig_pk child) (sig_opts child) parent_pk
                      (sig_md child) hash (md_get_size L md_info) (buf_bytes (sig child)),
                    [PkParsePublicKey, PkCanDo, MdInfoFromType, Md, MdGetSize,
                     PkVerifyExt])))"

subsection \<open>The lookup and the verification hook: \<open>crtVerifyCallback\<close>\<close>

text \<open>
  One comparison of the binary search: \<open>name_len\<close> is read from the candidate's header,
  and \<open>memcmp\<close> runs over that many bytes of the issuer pointer and of the candidate's name.
\<close>

definition entry_name_len :: "u8 list \<Rightarrow> nat list \<Rightarrow> int \<Rightarrow> nat" where
  "entry_name_len bs crts middle =
     be16 (at_off bs (crts ! nat middle) 0) (at_off bs (crts ! nat middle) 1)"

definition entry_key_len :: "u8 list \<Rightarrow> nat list \<Rightarrow> int \<Rightarrow> nat" where
  "entry_key_len bs crts middle =
     be16 (at_off bs (crts ! nat middle) 2) (at_off bs (crts ! nat middle) 3)"

definition compare_entry :: "u8 list \<Rightarrow> nat list \<Rightarrow> mem \<Rightarrow> int \<Rightarrow> int" where
  "compare_entry bs crts issuer_p middle =
     (let name_len = entry_name_len bs crts middle;
          crt_name = at_off bs (crts ! nat middle + CRT_HEADER_OFFSET)
      in memcmp issuer_p crt_name name_len)"

text \<open>
  The \<open>while\<close> loop. It returns \<open>crt_found\<close>, \<open>middle\<close> and \<open>name_len\<close> as the loop
  leaves them, and the comparisons made.
\<close>

function bsearch_loop ::
  "u8 list \<Rightarrow> nat list \<Rightarrow> mem \<Rightarrow> int \<Rightarrow> int \<Rightarrow> int \<Rightarrow> nat \<Rightarrow> event list
     \<Rightarrow> bool \<times> int \<times> nat \<times> event list" where
  "bsearch_loop bs crts issuer_p start end middle name_len evs =
     (if start \<le> end then
        (let name_len' = entry_name_len bs crts middle;
             cmp_res = compare_entry bs crts issuer_p middle;
             evs' = evs @ [Compare middle]
         in if cmp_res = 0 then (True, middle, name_len', evs')
            else if cmp_res < 0
            then bsearch_loop bs crts issuer_p start (middle - 1)
                   (c_div2 (start + (middle - 1))) name_len' evs'
            else bsearch_loop bs crts issuer_p (middle + 1) end
                   (c_div2 ((middle + 1) + end)) name_len' evs')
      else (False, middle, name_len, evs))"
  by pat_completeness auto
termination
  by (relation "measures
        [\<lambda>(bs, crts, issuer_p, start, end, middle, name_len, evs).
            if start \<le> end \<and> \<not> (start \<le> middle \<and> middle \<le> end) then 1 else 0,
         \<lambda>(bs, crts, issuer_p, start, end, middle, name_len, evs).
            nat (end - start + 1)]")
     (auto simp: c_div2_def)

declare bsearch_loop.simps [simp del]

text \<open>
  The hook returns its \<open>int\<close>, the flags word it leaves behind \<open>*flags\<close>, and the events.
  The parameters \<open>buf\<close> and \<open>depth\<close> are not read by the source and are left out.
\<close>

definition crtVerifyCallback ::
  "('pk, 'mdi) mbedtls \<Rightarrow> store \<Rightarrow> x509_crt \<Rightarrow> u32 \<Rightarrow> int \<times> u32 \<times> event list" where
  "crtVerifyCallback L st crt flags =
     (let child = crt;
          flags_filtered = flags AND NOT BADCERT_BAD_MD
      in if flags_filtered \<noteq> BADCERT_NOT_TRUSTED then (0, flags, [])
         else
           (case bundle_crts st of
              None \<Rightarrow> (ERR_X509_FATAL_ERROR, flags, [])
            | Some crts \<Rightarrow>
                (let start = 0;
                     end = int (bundle_num_certs st) - 1;
                     middle = c_div2 (end - start)
                 in case bsearch_loop (bundleBytes st) crts (buf_p (issuer_raw child))
                           start end middle 0 [] of
                      (crt_found, middle', name_len, evs) \<Rightarrow>
                        if crt_found then
                          (let key_len = entry_key_len (bundleBytes st) crts middle';
                               key_p = at_off (bundleBytes st)
                                         (crts ! nat middle' + CRT_HEADER_OFFSET + name_len)
                           in case crtCheckCertificate L child key_p key_len of
                                (ret, calls) \<Rightarrow>
                                  if ret = 0 then (0, 0, evs @ calls)
                                  else (ERR_X509_FATAL_ERROR, flags, evs @ calls))
                        else (ERR_X509_FATAL_ERROR, flags, evs))))"

subsection \<open>The operations of the subsystem\<close>

text \<open>
  \<open>init\<close> is the only function of the file that writes the statics of the store:
  \<open>crtVerifyCallback\<close> writes \<open>*flags\<close>, \<open>attach\<close> writes the handshake configuration
  and the dummy certificate, \<open>shouldVerify\<close> writes nothing.
\<close>

datatype operation =
  OpInit alloc_env "u8 list"
  | OpVerify x509_crt u32
  | OpAttach
  | OpShouldVerify

fun step :: "operation \<Rightarrow> store \<Rightarrow> store" where
  "step (OpInit env x509_bundle) st = snd (init env x509_bundle st)"
| "step (OpVerify crt flags) st = st"
| "step OpAttach st = st"
| "step OpShouldVerify st = st"

definition run :: "operation list \<Rightarrow> store \<Rightarrow> store" where
  "run ops st = fold step ops st"

subsection \<open>Reading the store as entries\<close>

text \<open>
  The \<open>subjectName\<close> and the \<open>publicKey\<close> of the entry that index slot \<open>i\<close> points to, as
  the callback reads them: the lengths from the four header bytes, the name after the
  header, the key after the name.
\<close>

definition subject_name :: "u8 list \<Rightarrow> nat list \<Rightarrow> nat \<Rightarrow> u8 list" where
  "subject_name bs crts i =
     read_mem (at_off bs (crts ! i + CRT_HEADER_OFFSET)) (entry_name_len bs crts (int i))"

definition public_key :: "u8 list \<Rightarrow> nat list \<Rightarrow> nat \<Rightarrow> u8 list" where
  "public_key bs crts i =
     read_mem (at_off bs (crts ! i + CRT_HEADER_OFFSET + entry_name_len bs crts (int i)))
       (entry_key_len bs crts (int i))"

definition subject_names :: "store \<Rightarrow> u8 list list" where
  "subject_names st =
     map (subject_name (bundleBytes st) (the (bundle_crts st))) [0..<bundle_num_certs st]"

text \<open>
  The outcome of the lookup of the hook: where the binary search stopped with a match
  (\<open>middle\<close> and \<open>name_len\<close>), or \<open>None\<close> for "not found" and for a store without index.
\<close>

definition find_entry :: "store \<Rightarrow> x509_crt \<Rightarrow> (int \<times> nat) option" where
  "find_entry st crt =
     (case bundle_crts st of
        None \<Rightarrow> None
      | Some crts \<Rightarrow>
          (case bsearch_loop (bundleBytes st) crts (buf_p (issuer_raw crt)) 0
                  (int (bundle_num_certs st) - 1)
                  (c_div2 (int (bundle_num_certs st) - 1 - 0)) 0 [] of
             (crt_found, middle, name_len, evs) \<Rightarrow>
               if crt_found then Some (middle, name_len) else None))"

text \<open>The signature check of the hook on the entry found, with the key as the hook passes it.\<close>

definition check_found ::
  "('pk, 'mdi) mbedtls \<Rightarrow> store \<Rightarrow> x509_crt \<Rightarrow> int \<times> nat \<Rightarrow> int" where
  "check_found L st crt e =
     (case e of
        (middle, name_len) \<Rightarrow>
          fst (crtCheckCertificate L crt
                 (at_off (bundleBytes st)
                    (the (bundle_crts st) ! nat middle + CRT_HEADER_OFFSET + name_len))
                 (entry_key_len (bundleBytes st) (the (bundle_crts st)) middle)))"

subsection \<open>The bundle format, as the specification gives it\<close>

text \<open>
  The cursor of the format: offset 2 for the first entry, and \<open>4 + nameLen + keyLen\<close>
  further for each entry walked.
\<close>

fun format_cursor :: "u8 list \<Rightarrow> nat \<Rightarrow> nat" where
  "format_cursor bs 0 = BUNDLE_HEADER_OFFSET"
| "format_cursor bs (Suc i) =
     format_cursor bs i + CRT_HEADER_OFFSET
       + be16 (bs ! format_cursor bs i) (bs ! (format_cursor bs i + 1))
       + be16 (bs ! (format_cursor bs i + 2)) (bs ! (format_cursor bs i + 3))"

definition format_count :: "u8 list \<Rightarrow> nat" where
  "format_count bs = be16 (bs ! 0) (bs ! 1)"

text \<open>
  The encoding of a list of (name, key) pairs, written from the external interface of the
  specification (the generator of bundles is not among the sources): a big-endian 16-bit
  count, then per entry the two big-endian 16-bit lengths, the name and the key.
\<close>

definition format_u16 :: "nat \<Rightarrow> u8 list" where
  "format_u16 n = [word_of_nat (n div 256), word_of_nat (n mod 256)]"

definition format_entry :: "u8 list \<times> u8 list \<Rightarrow> u8 list" where
  "format_entry e = format_u16 (length (fst e)) @ format_u16 (length (snd e)) @ fst e @ snd e"

definition format_bundle :: "(u8 list \<times> u8 list) list \<Rightarrow> u8 list" where
  "format_bundle ps = format_u16 (length ps) @ concat (map format_entry ps)"

text \<open>What "encoded per the format" asks of the pairs: every count and length fits 16 bits.\<close>

definition format_fits :: "(u8 list \<times> u8 list) list \<Rightarrow> bool" where
  "format_fits ps \<longleftrightarrow>
     length ps < 65536 \<and> (\<forall>e \<in> set ps. length (fst e) < 65536 \<and> length (snd e) < 65536)"

text \<open>
  Names are ordered as byte strings: lexicographically, bytes unsigned (the order of
  lists over the order of words). No name of a prefix-free list starts another one.
\<close>

definition prefix_free :: "u8 list list \<Rightarrow> bool" where
  "prefix_free ns \<longleftrightarrow> distinct ns \<and> (\<forall>a \<in> set ns. \<forall>b \<in> set ns. prefix a b \<longrightarrow> a = b)"

subsection \<open>The order of names\<close>

text \<open>
  Two byte strings differ below when, at the first position where they differ, the first
  has the smaller byte; the position exists in both. A byte string is smaller than
  another when it is a proper prefix of it or differs below it.
\<close>

definition differs_below :: "u8 list \<Rightarrow> u8 list \<Rightarrow> bool" where
  "differs_below a b \<longleftrightarrow>
     (\<exists>d. d < length a \<and> d < length b \<and> take d a = take d b \<and> a ! d < b ! d)"

text \<open>Where entry \<open>i\<close> of an encoded bundle starts.\<close>

definition format_entry_offset :: "(u8 list \<times> u8 list) list \<Rightarrow> nat \<Rightarrow> nat" where
  "format_entry_offset ps i = 2 + length (concat (map format_entry (take i ps)))"

subsection \<open>A crypto library and certificates to run the functions on\<close>

text \<open>
  A stand-in for the library, for evaluating the functions on concrete inputs: a key
  parses when it is not empty, every key is of family 2, the digest of a message is the
  message and exists for every algorithm but 0, and a signature is valid when it is the
  key followed by the digest.
\<close>

definition toy_lib :: "(u8 list, nat) mbedtls" where
  "toy_lib =
     \<lparr>pk_parse_public_key = (\<lambda>key. (if key = [] then - 1 else 0, key)),
      pk_can_do = (\<lambda>pk t. t = 2),
      md_info_from_type = (\<lambda>t. t),
      md = (\<lambda>mdi msg. (if mdi = 0 then - 2 else 0, msg)),
      md_get_size = (\<lambda>mdi. 1),
      pk_verify_ext = (\<lambda>t opts pk mdt hash hlen sg. if sg = pk @ hash then 0 else - 3)\<rparr>"

definition mem_of :: "u8 list \<Rightarrow> mem" where
  "mem_of bs k = (if k < length bs then bs ! k else 0)"

definition buf_of :: "u8 list \<Rightarrow> x509_buf" where
  "buf_of bs = \<lparr>buf_len = length bs, buf_p = mem_of bs\<rparr>"

definition toy_crt :: "u8 list \<Rightarrow> nat \<Rightarrow> nat \<Rightarrow> u8 list \<Rightarrow> u8 list \<Rightarrow> x509_crt" where
  "toy_crt issuer pk_alg md_alg body sg =
     \<lparr>issuer_raw = buf_of issuer, tbs = buf_of body, sig = buf_of sg,
      sig_pk = pk_alg, sig_md = md_alg, sig_opts = 0\<rparr>"

text \<open>
  Certificates issued by "A": one signed with the key 7, one with a signature that is not
  valid under that key, one with a signature algorithm of another family, one with a
  digest algorithm the library does not have. And a certificate issued by "B".
\<close>

definition crt_good :: x509_crt where
  "crt_good = toy_crt [65] 2 4 [1] [7, 1]"

definition crt_tampered :: x509_crt where
  "crt_tampered = toy_crt [65] 2 4 [1] [7, 2]"

definition crt_other_family :: x509_crt where
  "crt_other_family = toy_crt [65] 3 4 [1] [7, 1]"

definition crt_no_digest :: x509_crt where
  "crt_no_digest = toy_crt [65] 2 0 [1] [7, 1]"

definition crt_by_B :: x509_crt where
  "crt_by_B = toy_crt [66] 2 4 [1] [8, 1]"

definition alloc_fine :: alloc_env where
  "alloc_fine = \<lparr>calloc_ok = True, resize_ok = True\<rparr>"

definition calloc_fails :: alloc_env where
  "calloc_fails = \<lparr>calloc_ok = False, resize_ok = True\<rparr>"

text \<open>A bundle with the one entry "A" and key 7; the entries "A", "B", "C" with keys 7, 8, 9.\<close>

definition bundle_A :: "u8 list" where
  "bundle_A = [0, 1, 0, 1, 0, 1, 65, 7]"

definition bundle_ABC :: "u8 list" where
  "bundle_ABC = [0, 3, 0, 1, 0, 1, 65, 7, 0, 1, 0, 1, 66, 8, 0, 1, 0, 1, 67, 9]"

text \<open>A bundle whose one entry declares a key of five bytes and holds one.\<close>

definition bundle_B_truncated :: "u8 list" where
  "bundle_B_truncated = [0, 1, 0, 1, 0, 5, 66, 9]"

definition store_A :: store where
  "store_A = snd (init alloc_fine bundle_A initial_store)"

definition store_ABC :: store where
  "store_ABC = snd (init alloc_fine bundle_ABC initial_store)"

text \<open>
  Pairs to encode: the names "A", "B", "C"; the names "A" and "AB", the first a prefix of the
  second; the names "AB" and "AC".
\<close>

definition pairs_ABC :: "(u8 list \<times> u8 list) list" where
  "pairs_ABC = [([65], [7]), ([66], [8]), ([67], [9])]"

definition pairs_A_AB :: "(u8 list \<times> u8 list) list" where
  "pairs_A_AB = [([65], [7]), ([65, 66], [8])]"

definition pairs_AB_AC :: "(u8 list \<times> u8 list) list" where
  "pairs_AB_AC = [([65, 66], [7]), ([65, 67], [8])]"

definition store_A_AB :: store where
  "store_A_AB = snd (init alloc_fine (format_bundle pairs_A_AB) initial_store)"

definition store_AB_AC :: store where
  "store_AB_AC = snd (init alloc_fine (format_bundle pairs_AB_AC) initial_store)"

text \<open>
  Certificates issued by "AB", "CC", "D" and "@", and one issued by "A" whose issuer is
  followed in memory by the byte "C".
\<close>

definition crt_by_AB :: x509_crt where
  "crt_by_AB = toy_crt [65, 66] 2 4 [1] [8, 1]"

definition crt_by_CC :: x509_crt where
  "crt_by_CC = toy_crt [67, 67] 2 4 [1] [9, 1]"

definition crt_by_D :: x509_crt where
  "crt_by_D = toy_crt [68] 2 4 [1] [9, 1]"

definition crt_by_at :: x509_crt where
  "crt_by_at = toy_crt [64] 2 4 [1] [7, 1]"

definition crt_by_A_before_C :: x509_crt where
  "crt_by_A_before_C =
     (toy_crt [65, 67] 2 4 [1] [8, 1])\<lparr>issuer_raw := \<lparr>buf_len = 1, buf_p = mem_of [65, 67]\<rparr>\<rparr>"

section \<open>Properties\<close>

subsection \<open>Evaluating the samples\<close>

lemmas flag_defs = BADCERT_NOT_TRUSTED_def BADCERT_EXPIRED_def BADCERT_BAD_MD_def

lemma store_A_eq:
  "store_A = \<lparr>bundleBytes = bundle_A, bundle_crts = Some [2], bundle_num_certs = 1,
              s_should_verify_certs = True\<rparr>"
  by code_simp

lemma store_ABC_eq:
  "store_ABC = \<lparr>bundleBytes = bundle_ABC, bundle_crts = Some [2, 8, 14],
                bundle_num_certs = 3, s_should_verify_certs = True\<rparr>"
  by code_simp

lemma read_mem_mem_of: "read_mem (mem_of bs) (length bs) = bs"
  by (rule nth_equalityI) (simp_all add: read_mem_def mem_of_def)

lemma toy_reads:
  "read_mem (mem_of [7]) (Suc 0) = [7]"
  "read_mem (mem_of []) 0 = []"
  "buf_bytes (tbs (toy_crt i p m b s)) = b"
  "buf_bytes (sig (toy_crt i p m b s)) = s"
  "sig_pk (toy_crt i p m b s) = p"
  "sig_md (toy_crt i p m b s) = m"
  using read_mem_mem_of [of "[7]"] read_mem_mem_of [of "[]"]
  by (simp_all add: buf_bytes_def toy_crt_def buf_of_def read_mem_mem_of)

lemmas crt_defs =
  crt_good_def crt_tampered_def crt_other_family_def crt_no_digest_def crt_by_B_def

subsection \<open>Reading memory, comparing bytes\<close>

lemma length_read_mem [simp]: "length (read_mem m n) = n"
  by (simp add: read_mem_def)

lemma nth_read_mem [simp]: "k < n \<Longrightarrow> read_mem m n ! k = m k"
  by (simp add: read_mem_def)

lemma take_read_mem: "k \<le> n \<Longrightarrow> take k (read_mem m n) = read_mem m k"
  by (rule nth_equalityI) simp_all

lemma memcmp_bytes_same [simp]: "memcmp_bytes xs xs = 0"
  by (induction xs) simp_all

lemma memcmp_bytes_first_difference:
  "length a = length b \<Longrightarrow> d < length a \<Longrightarrow> take d a = take d b \<Longrightarrow> a ! d \<noteq> b ! d \<Longrightarrow>
   memcmp_bytes a b = int (unat (a ! d)) - int (unat (b ! d))"
proof (induction a b arbitrary: d rule: memcmp_bytes.induct)
  case (1 x xs y ys)
  show ?case
  proof (cases d)
    case 0
    with 1 show ?thesis by simp
  next
    case (Suc d')
    with 1 show ?thesis by simp
  qed
qed simp_all

lemma memcmp_bytes_zero_iff:
  "length a = length b \<Longrightarrow> memcmp_bytes a b = 0 \<longleftrightarrow> a = b"
proof (induction a b rule: memcmp_bytes.induct)
  case (1 x xs y ys)
  have "x \<noteq> y \<Longrightarrow> int (unat x) - int (unat y) \<noteq> 0"
    by (simp add: word_uint_eq_iff)
  with 1 show ?case by auto
qed simp_all

lemma be16_eq: "be16 a b = unat a * 256 + unat b"
proof -
  have "push_bit 8 (unat a) AND unat b = 0"
    by (rule bit_eqI) (auto simp: bit_simps dest: bit_imp_le_length)
  then have "push_bit 8 (unat a) OR unat b = push_bit 8 (unat a) + unat b"
    by (simp add: disjunctive_add_eq_or)
  then show ?thesis
    by (simp add: be16_def push_bit_eq_mult)
qed

lemma be16_enc16:
  assumes "n < 65536"
  shows "be16 (format_u16 n ! 0) (format_u16 n ! Suc 0) = n"
proof -
  have "n div 256 < 256" using assms by simp
  then have "unat (word_of_nat (n div 256) :: u8) = n div 256"
    by (simp add: unat_of_nat)
  moreover have "unat (word_of_nat (n mod 256) :: u8) = n mod 256"
    by (simp add: unat_of_nat)
  ultimately show ?thesis by (simp add: be16_eq format_u16_def)
qed

subsection \<open>Loading: what \<open>init\<close> accepts\<close>

lemma walk_rejects:
  "i \<le> j \<Longrightarrow> j < n \<Longrightarrow> e < format_cursor bs j + 4 \<Longrightarrow> walk bs e n i (format_cursor bs i) crts = None"
proof (induction "j - i" arbitrary: i crts)
  case 0
  then have "i = j" by simp
  with 0 show ?case by (simp add: walk.simps)
next
  case (Suc k)
  then have lt: "i < j" "i < n" by simp_all
  have IH: "walk bs e n (Suc i) (format_cursor bs (Suc i)) (crts[i := format_cursor bs i]) = None"
    using Suc.hyps(1) [of "Suc i" "crts[i := format_cursor bs i]"] Suc.hyps(2) Suc.prems lt
    by (simp del: format_cursor.simps)
  show ?case
  proof (cases "e < format_cursor bs i + 4")
    case True
    with lt show ?thesis by (simp add: walk.simps)
  next
    case False
    with lt IH show ?thesis
      by (subst walk.simps) (simp add: at_off_def Let_def add.assoc)
  qed
qed

lemma walk_accepts:
  "i \<le> n \<Longrightarrow> length crts = n \<Longrightarrow> \<forall>j. i \<le> j \<and> j < n \<longrightarrow> format_cursor bs j + 4 \<le> e \<Longrightarrow>
   walk bs e n i (format_cursor bs i) crts = Some (take i crts @ map (format_cursor bs) [i..<n], format_cursor bs n)"
proof (induction "n - i" arbitrary: i crts)
  case 0
  then show ?case by (simp add: walk.simps)
next
  case (Suc k)
  then have lt: "i < n" by simp
  with Suc.prems have fit: "format_cursor bs i + 4 \<le> e" by simp
  have "walk bs e n (Suc i) (format_cursor bs (Suc i)) (crts[i := format_cursor bs i]) =
        Some (take (Suc i) (crts[i := format_cursor bs i]) @ map (format_cursor bs) [Suc i..<n], format_cursor bs n)"
    using Suc.hyps(1) [of "Suc i" "crts[i := format_cursor bs i]"] Suc.hyps(2) Suc.prems lt
    by (simp del: format_cursor.simps)
  moreover have "take (Suc i) (crts[i := format_cursor bs i]) = take i crts @ [format_cursor bs i]"
    using lt Suc.prems(2) by (simp add: take_Suc_conv_app_nth)
  ultimately show ?case
    using lt fit
    by (subst walk.simps) (simp add: at_off_def Let_def add.assoc upt_conv_Cons)
qed

lemma walk_from_start:
  "walk bs (length bs) n 0 2 (replicate n 0) =
     (if \<exists>i < n. length bs < format_cursor bs i + 4 then None
      else Some (map (format_cursor bs) [0..<n], format_cursor bs n))"
proof (cases "\<exists>i < n. length bs < format_cursor bs i + 4")
  case True
  then obtain j where "j < n" "length bs < format_cursor bs j + 4" by blast
  then have "walk bs (length bs) n 0 (format_cursor bs 0) (replicate n 0) = None"
    by (intro walk_rejects [of 0 j]) simp_all
  with True show ?thesis by simp
next
  case False
  then have "\<forall>j. 0 \<le> j \<and> j < n \<longrightarrow> format_cursor bs j + 4 \<le> length bs"
    by (meson not_less)
  then have "walk bs (length bs) n 0 (format_cursor bs 0) (replicate n 0) =
             Some (take 0 (replicate n 0) @ map (format_cursor bs) [0..<n], format_cursor bs n)"
    by (intro walk_accepts) simp_all
  with False show ?thesis by simp
qed

text \<open>The outcome of \<open>init\<close> and the store it leaves, in terms of the cursor of the format.\<close>

lemma init_eq:
  "init env bs st =
     (if length bs < 6 then (Inl InvalidBundle, st)
      else if \<not> calloc_ok env \<or> \<not> resize_ok env then (Inl AllocationFailure, st)
      else if (\<exists>i < format_count bs. length bs < format_cursor bs i + 4)
              \<or> length bs < format_cursor bs (format_count bs)
      then (Inl InvalidBundle, st\<lparr>bundleBytes := bs\<rparr>)
      else (Inr (),
            st\<lparr>bundleBytes := bs, bundle_num_certs := format_count bs,
               bundle_crts := Some (map (format_cursor bs) [0..<format_count bs]),
               s_should_verify_certs := True\<rparr>))"
  by (auto simp: init_def Let_def format_count_def walk_from_start)

text \<open>
  C6, as the code has it: a buffer shorter than 6 bytes is rejected as \<open>InvalidBundle\<close>.
  A longer buffer is rejected as \<open>AllocationFailure\<close> when the index or the copy of
  the buffer cannot be allocated. When both are allocated, a buffer in which the four
  header bytes of a declared entry would end after the buffer, or in which the cursor
  after all declared entries is beyond the buffer, is rejected as \<open>InvalidBundle\<close>; and
  a buffer of at least 6 bytes whose declared entries fit and end exactly at the buffer's
  length is accepted: the whole buffer is the active bundle, and index slot \<open>i\<close> is the
  offset the cursor has after \<open>i\<close> entries, starting at offset 2 and advancing by
  \<open>4 + nameLen + keyLen\<close> per entry.
\<close>

theorem init_validates_structure:
  "(length bs < 6 \<longrightarrow> fst (init env bs st) = Inl InvalidBundle)
   \<and> (6 \<le> length bs \<and> \<not> (calloc_ok env \<and> resize_ok env)
        \<longrightarrow> fst (init env bs st) = Inl AllocationFailure)
   \<and> (calloc_ok env \<and> resize_ok env
        \<and> (\<exists>i < format_count bs. length bs < format_cursor bs i + 4)
        \<longrightarrow> fst (init env bs st) = Inl InvalidBundle)
   \<and> (calloc_ok env \<and> resize_ok env \<and> length bs < format_cursor bs (format_count bs)
        \<longrightarrow> fst (init env bs st) = Inl InvalidBundle)
   \<and> (calloc_ok env \<and> resize_ok env \<and> 6 \<le> length bs
        \<and> (\<forall>i < format_count bs. format_cursor bs i + 4 \<le> length bs)
        \<and> format_cursor bs (format_count bs) = length bs
        \<longrightarrow> init env bs st =
              (Inr (), \<lparr>bundleBytes = bs,
                        bundle_crts = Some (map (format_cursor bs) [0..<format_count bs]),
                        bundle_num_certs = format_count bs,
                        s_should_verify_certs = True\<rparr>))"
  by (auto simp: init_eq)

text \<open>
  The bundle without entries, \<open>[0, 0]\<close>, declares nothing and ends exactly where its
  count ends, and is rejected because it is shorter than 6 bytes. And a buffer whose second
  declared entry has no room for its header is rejected as \<open>AllocationFailure\<close>, not as
  \<open>InvalidBundle\<close>, when \<open>calloc\<close> returns no index.
\<close>

theorem empty_bundle_rejected_allocation_first:
  "format_count [0, 0] = 0 \<and> format_cursor [0, 0] (format_count [0, 0]) = length [0 :: u8, 0]
   \<and> fst (init alloc_fine [0, 0] initial_store) = Inl InvalidBundle
   \<and> format_count [0, 2, 0, 0, 0, 0] = 2
   \<and> length [0 :: u8, 2, 0, 0, 0, 0] < format_cursor [0, 2, 0, 0, 0, 0] 1 + 4
   \<and> fst (init calloc_fails [0, 2, 0, 0, 0, 0] initial_store) = Inl AllocationFailure"
  by code_simp

lemma sample_cursors:
  "length [0 :: u8, 0, 0] < 6
   \<and> format_count [0, 2, 0, 0, 0, 0] = 2
   \<and> length [0 :: u8, 2, 0, 0, 0, 0] < format_cursor [0, 2, 0, 0, 0, 0] 1 + 4
   \<and> length bundle_B_truncated < format_cursor bundle_B_truncated (format_count bundle_B_truncated)
   \<and> format_count bundle_ABC = 3
   \<and> length bundle_ABC = 20
   \<and> map (format_cursor bundle_ABC) [0..<3] = [2, 8, 14]
   \<and> format_cursor bundle_ABC 3 = 20"
  by code_simp

theorem init_validates_structure_witness:
  "fst (init alloc_fine [0, 0, 0] initial_store) = Inl InvalidBundle
   \<and> fst (init calloc_fails bundle_ABC initial_store) = Inl AllocationFailure
   \<and> fst (init alloc_fine [0, 2, 0, 0, 0, 0] initial_store) = Inl InvalidBundle
   \<and> fst (init alloc_fine bundle_B_truncated initial_store) = Inl InvalidBundle
   \<and> init alloc_fine bundle_ABC initial_store =
       (Inr (), \<lparr>bundleBytes = bundle_ABC, bundle_crts = Some [2, 8, 14],
                 bundle_num_certs = 3, s_should_verify_certs = True\<rparr>)"
proof -
  have ok: "calloc_ok alloc_fine \<and> resize_ok alloc_fine"
    by (simp add: alloc_fine_def)
  have no: "\<not> (calloc_ok calloc_fails \<and> resize_ok calloc_fails)"
    by (simp add: calloc_fails_def)
  have fit: "\<forall>i < format_count bundle_ABC. format_cursor bundle_ABC i + 4 \<le> length bundle_ABC"
  proof (intro allI impI)
    fix i
    assume "i < format_count bundle_ABC"
    then have "i < 3" using sample_cursors by simp
    then have "format_cursor bundle_ABC i \<in> set (map (format_cursor bundle_ABC) [0..<3])" by simp
    then have "format_cursor bundle_ABC i \<in> {2, 8, 14}" using sample_cursors by simp
    then show "format_cursor bundle_ABC i + 4 \<le> length bundle_ABC"
      using sample_cursors by auto
  qed
  have ex: "\<exists>i < format_count [0, 2, 0, 0, 0, 0].
              length [0 :: u8, 2, 0, 0, 0, 0] < format_cursor [0, 2, 0, 0, 0, 0] i + 4"
    using sample_cursors by (intro exI [of _ 1]) simp
  show ?thesis
    using ok no fit ex sample_cursors
      init_validates_structure [of "[0, 0, 0]" alloc_fine initial_store]
      init_validates_structure [of bundle_ABC calloc_fails initial_store]
      init_validates_structure [of "[0, 2, 0, 0, 0, 0]" alloc_fine initial_store]
      init_validates_structure [of bundle_B_truncated alloc_fine initial_store]
      init_validates_structure [of bundle_ABC alloc_fine initial_store]
    by simp
qed

subsection \<open>Loading: what a rejected load leaves behind\<close>

text \<open>
  A load rejected for a short buffer or for want of memory leaves the store as it was.
  Every rejected load leaves the index, the count and the flag as they were.
\<close>

lemma early_rejection_keeps_store:
  "length bs < 6 \<or> \<not> calloc_ok env \<or> \<not> resize_ok env \<Longrightarrow> snd (init env bs st) = st"
  by (auto simp: init_eq)

lemma rejection_keeps_index:
  "fst (init env bs st) = Inl e \<Longrightarrow>
   bundle_crts (snd (init env bs st)) = bundle_crts st
   \<and> bundle_num_certs (snd (init env bs st)) = bundle_num_certs st
   \<and> s_should_verify_certs (snd (init env bs st)) = s_should_verify_certs st"
  by (auto simp: init_eq split: if_splits)

text \<open>
  C1 asks that a load rejected as \<open>InvalidBundle\<close> leaves the byte buffer of the active
  store unchanged, and lookups with it. The walk over the entries runs on \<open>bundleBytes\<close>
  itself, after the candidate has been copied into it: with the bundle of "A" active, the
  load of a bundle truncated in its key is rejected and leaves the candidate's bytes
  under the old index, and the certificate that verified before is refused after.
\<close>

theorem rejected_load_overwrites_bundleBytes:
  "fst (init alloc_fine bundle_B_truncated store_A) = Inl InvalidBundle
   \<and> bundleBytes store_A = bundle_A
   \<and> bundleBytes (snd (init alloc_fine bundle_B_truncated store_A)) = bundle_B_truncated
   \<and> bundle_B_truncated \<noteq> bundle_A
   \<and> bundle_crts (snd (init alloc_fine bundle_B_truncated store_A)) = bundle_crts store_A
   \<and> fst (crtVerifyCallback toy_lib store_A crt_good BADCERT_NOT_TRUSTED) = 0
   \<and> fst (crtVerifyCallback toy_lib (snd (init alloc_fine bundle_B_truncated store_A))
            crt_good BADCERT_NOT_TRUSTED) = ERR_X509_FATAL_ERROR"
  by code_simp

subsection \<open>The flag of the store\<close>

lemma init_keeps_flag_set:
  "s_should_verify_certs st \<Longrightarrow> s_should_verify_certs (snd (init env bs st))"
  by (simp add: init_def Let_def split: option.splits prod.splits)

lemma init_success_sets_flag:
  "fst (init env bs st) = Inr () \<Longrightarrow> s_should_verify_certs (snd (init env bs st))"
  by (simp add: init_def Let_def split: option.splits prod.splits if_splits)

lemma step_keeps_flag_set:
  "s_should_verify_certs st \<Longrightarrow> s_should_verify_certs (step op st)"
  by (cases op) (simp_all add: init_keeps_flag_set)

lemma fold_step_keeps_flag_set:
  "s_should_verify_certs st \<Longrightarrow> s_should_verify_certs (fold step ops st)"
  by (induction ops arbitrary: st) (simp_all add: step_keeps_flag_set)

text \<open>
  C10: once \<open>shouldVerify\<close> returns true, as it does after a load that succeeded, it
  returns true after every further sequence of loads (succeeding or failing with either
  error), verifications, attachments and queries: no operation clears the flag.
\<close>

theorem trust_state_monotone:
  "(shouldVerify st \<longrightarrow> shouldVerify (run ops st))
   \<and> (fst (init env bs st) = Inr () \<longrightarrow> shouldVerify (run ops (snd (init env bs st))))"
  by (simp add: shouldVerify_def run_def fold_step_keeps_flag_set init_success_sets_flag)

lemma sample_loads:
  "fst (init alloc_fine bundle_A initial_store) = Inr ()
   \<and> fst (init alloc_fine bundle_B_truncated store_A) = Inl InvalidBundle
   \<and> fst (init calloc_fails bundle_ABC store_A) = Inl AllocationFailure"
  by code_simp

theorem trust_state_monotone_witness:
  "fst (init alloc_fine bundle_A initial_store) = Inr ()
   \<and> fst (init alloc_fine bundle_B_truncated store_A) = Inl InvalidBundle
   \<and> fst (init calloc_fails bundle_ABC store_A)
        = Inl AllocationFailure
   \<and> shouldVerify
        (run [OpInit alloc_fine bundle_B_truncated,
              OpVerify crt_good BADCERT_NOT_TRUSTED,
              OpInit calloc_fails bundle_ABC,
              OpAttach, OpShouldVerify]
           store_A)"
  using sample_loads
    trust_state_monotone [of initial_store
      "[OpInit alloc_fine bundle_B_truncated,
        OpVerify crt_good BADCERT_NOT_TRUSTED,
        OpInit calloc_fails bundle_ABC,
        OpAttach, OpShouldVerify]" alloc_fine bundle_A]
  by (simp add: store_A_def)

subsection \<open>The deferral test of the hook\<close>

text \<open>
  C7: whenever the flags, with the weak-digest bit masked off, are anything but exactly
  the "untrusted" bit (zero, or "untrusted" together with another bit such as "expired"),
  the hook returns 0, leaves the flags word as it was, and makes no comparison with a
  bundle entry and no call into the crypto library.
\<close>

theorem verify_defers_unless_exactly_untrusted:
  "flags AND NOT BADCERT_BAD_MD \<noteq> BADCERT_NOT_TRUSTED
   \<Longrightarrow> crtVerifyCallback L st crt flags = (0, flags, [])"
  by (simp add: crtVerifyCallback_def)

theorem verify_defers_unless_exactly_untrusted_witness:
  "(BADCERT_NOT_TRUSTED OR BADCERT_EXPIRED) AND NOT BADCERT_BAD_MD \<noteq> BADCERT_NOT_TRUSTED
   \<and> crtVerifyCallback toy_lib store_A crt_good
         (BADCERT_NOT_TRUSTED OR BADCERT_EXPIRED) =
       (0, BADCERT_NOT_TRUSTED OR BADCERT_EXPIRED, [])
   \<and> 0 AND NOT BADCERT_BAD_MD \<noteq> BADCERT_NOT_TRUSTED
   \<and> crtVerifyCallback toy_lib store_A crt_good 0 = (0, 0, [])"
proof -
  have h1: "(BADCERT_NOT_TRUSTED OR BADCERT_EXPIRED) AND NOT BADCERT_BAD_MD
              \<noteq> BADCERT_NOT_TRUSTED"
    by (simp add: flag_defs)
  have h2: "0 AND NOT BADCERT_BAD_MD \<noteq> BADCERT_NOT_TRUSTED"
    by (simp add: flag_defs)
  show ?thesis
    using h1 h2
      verify_defers_unless_exactly_untrusted [OF h1, of toy_lib store_A
        crt_good]
      verify_defers_unless_exactly_untrusted [OF h2, of toy_lib store_A
        crt_good]
    by simp
qed

text \<open>
  C9: the deferral test comes before the test for a loaded bundle. In a store without
  index (as before any load) the hook returns 0 with the flags unchanged for every
  certificate whose masked flags are not exactly "untrusted"; the fatal error of the
  missing bundle is returned for exactly the certificates whose masked flags are
  "untrusted".
\<close>

theorem no_bundle_fatal_only_for_untrusted:
  "bundle_crts st = None \<Longrightarrow>
   crtVerifyCallback L st crt flags =
     (if flags AND NOT BADCERT_BAD_MD = BADCERT_NOT_TRUSTED
      then (ERR_X509_FATAL_ERROR, flags, []) else (0, flags, []))"
  by (simp add: crtVerifyCallback_def)

theorem no_bundle_fatal_only_for_untrusted_witness:
  "bundle_crts initial_store = None \<and> \<not> shouldVerify initial_store
   \<and> crtVerifyCallback toy_lib initial_store crt_good
        (BADCERT_NOT_TRUSTED OR BADCERT_EXPIRED) =
       (0, BADCERT_NOT_TRUSTED OR BADCERT_EXPIRED, [])
   \<and> crtVerifyCallback toy_lib initial_store crt_good
        BADCERT_NOT_TRUSTED = (ERR_X509_FATAL_ERROR, BADCERT_NOT_TRUSTED, [])"
proof -
  have h: "bundle_crts initial_store = None"
    by (simp add: initial_store_def)
  have "\<not> shouldVerify initial_store"
    by (simp add: initial_store_def shouldVerify_def)
  then show ?thesis
    using h
      no_bundle_fatal_only_for_untrusted [OF h, of toy_lib crt_good
        "BADCERT_NOT_TRUSTED OR BADCERT_EXPIRED"]
      no_bundle_fatal_only_for_untrusted [OF h, of toy_lib crt_good
        "BADCERT_NOT_TRUSTED"]
    by (simp add: flag_defs)
qed

subsection \<open>The signature check\<close>

text \<open>
  C8: the signature check returns 0 exactly when the key parses, the parsed key can do
  the certificate's signature algorithm, the digest of the to-be-signed bytes is
  computed, and the signature verifies against it. The steps run in this order and the
  first one that fails ends the check with a result that is not 0: no digest is computed
  for a key of the wrong family, and nothing is called after a failure.
\<close>

theorem check_certificate_steps:
  "(case pk_parse_public_key L (read_mem pub_key_buf pub_key_len) of
      (r1, parent_pk) \<Rightarrow>
        (case md L (md_info_from_type L (sig_md child)) (buf_bytes (tbs child)) of
           (r3, hash) \<Rightarrow>
             (let can = pk_can_do L parent_pk (sig_pk child);
                  r4 = pk_verify_ext L (sig_pk child) (sig_opts child) parent_pk (sig_md child)
                         hash (md_get_size L (md_info_from_type L (sig_md child)))
                         (buf_bytes (sig child));
                  res = crtCheckCertificate L child pub_key_buf pub_key_len
              in (fst res = 0 \<longleftrightarrow> r1 = 0 \<and> can \<and> r3 = 0 \<and> r4 = 0)
                 \<and> (r1 \<noteq> 0 \<longrightarrow> res = (r1, [PkParsePublicKey]))
                 \<and> (r1 = 0 \<and> \<not> can \<longrightarrow> res = (- 1, [PkParsePublicKey, PkCanDo]))
                 \<and> (r1 = 0 \<and> can \<and> r3 \<noteq> 0 \<longrightarrow>
                      res = (r3, [PkParsePublicKey, PkCanDo, MdInfoFromType, Md]))
                 \<and> (r1 = 0 \<and> can \<and> r3 = 0 \<longrightarrow>
                      res = (r4, [PkParsePublicKey, PkCanDo, MdInfoFromType, Md, MdGetSize,
                                  PkVerifyExt])))))"
  by (auto simp: crtCheckCertificate_def Let_def split: prod.splits)

theorem check_certificate_steps_witness:
  "crtCheckCertificate toy_lib crt_good (mem_of [7]) 1 =
     (0, [PkParsePublicKey, PkCanDo, MdInfoFromType, Md, MdGetSize, PkVerifyExt])
   \<and> crtCheckCertificate toy_lib crt_tampered (mem_of [7]) 1 =
     (- 3, [PkParsePublicKey, PkCanDo, MdInfoFromType, Md, MdGetSize, PkVerifyExt])
   \<and> crtCheckCertificate toy_lib crt_no_digest (mem_of [7]) 1 =
     (- 2, [PkParsePublicKey, PkCanDo, MdInfoFromType, Md])
   \<and> crtCheckCertificate toy_lib crt_other_family (mem_of [7]) 1 =
     (- 1, [PkParsePublicKey, PkCanDo])
   \<and> crtCheckCertificate toy_lib crt_good (mem_of []) 0 =
     (- 1, [PkParsePublicKey])"
  using
    check_certificate_steps [where L = toy_lib and pub_key_buf = "mem_of [7]"
      and pub_key_len = 1 and child = crt_good]
    check_certificate_steps [where L = toy_lib and pub_key_buf = "mem_of [7]"
      and pub_key_len = 1 and child = crt_tampered]
    check_certificate_steps [where L = toy_lib and pub_key_buf = "mem_of [7]"
      and pub_key_len = 1 and child = crt_no_digest]
    check_certificate_steps [where L = toy_lib and pub_key_buf = "mem_of [7]"
      and pub_key_len = 1 and child = crt_other_family]
    check_certificate_steps [where L = toy_lib and pub_key_buf = "mem_of []"
      and pub_key_len = 0 and child = crt_good]
  by (simp add: toy_reads toy_lib_def Let_def crt_defs)

subsection \<open>The binary search\<close>

lemma c_div2_between: "s \<le> e \<Longrightarrow> s \<le> c_div2 (s + e) \<and> c_div2 (s + e) \<le> e"
  by (auto simp: c_div2_def)

lemma bsearch_all_below:
  assumes "\<forall>j. start \<le> j \<and> j \<le> end \<longrightarrow> compare_entry bs crts p j < 0"
    and "start \<le> end \<longrightarrow> start \<le> middle \<and> middle \<le> end"
  shows "\<not> fst (bsearch_loop bs crts p start end middle nl evs)"
  using assms
proof (induction bs crts p start "end" middle nl evs rule: bsearch_loop.induct)
  case (1 bs crts issuer_p start "end" middle name_len evs)
  show ?case
  proof (cases "start \<le> end")
    case False
    then show ?thesis by (simp add: bsearch_loop.simps)
  next
    case True
    with "1.prems" have mid: "start \<le> middle" "middle \<le> end" by simp_all
    with "1.prems" have neg: "compare_entry bs crts issuer_p middle < 0" by simp
    have "\<not> fst (bsearch_loop bs crts issuer_p start (middle - 1)
                  (c_div2 (start + (middle - 1))) (entry_name_len bs crts middle)
                  (evs @ [Compare middle]))"
      using True neg mid "1.prems"(1) c_div2_between [of start "middle - 1"]
      by (intro "1.IH"(1)) auto
    with True neg show ?thesis
      by (subst bsearch_loop.simps) (simp add: Let_def)
  qed
qed

lemma bsearch_all_above:
  assumes "\<forall>j. start \<le> j \<and> j \<le> end \<longrightarrow> 0 < compare_entry bs crts p j"
    and "start \<le> end \<longrightarrow> start \<le> middle \<and> middle \<le> end"
  shows "\<not> fst (bsearch_loop bs crts p start end middle nl evs)"
  using assms
proof (induction bs crts p start "end" middle nl evs rule: bsearch_loop.induct)
  case (1 bs crts issuer_p start "end" middle name_len evs)
  show ?case
  proof (cases "start \<le> end")
    case False
    then show ?thesis by (simp add: bsearch_loop.simps)
  next
    case True
    with "1.prems" have mid: "start \<le> middle" "middle \<le> end" by simp_all
    with "1.prems" have pos: "0 < compare_entry bs crts issuer_p middle" by simp
    have "\<not> fst (bsearch_loop bs crts issuer_p (middle + 1) end
                  (c_div2 ((middle + 1) + end)) (entry_name_len bs crts middle)
                  (evs @ [Compare middle]))"
      using True pos mid "1.prems"(1) c_div2_between [of "middle + 1" "end"]
      by (intro "1.IH"(2)) auto
    with True pos show ?thesis
      by (subst bsearch_loop.simps) (simp add: Let_def)
  qed
qed

lemma bsearch_finds:
  assumes "start \<le> t" "t \<le> end"
    and "\<forall>j. start \<le> j \<and> j < t \<longrightarrow> 0 < compare_entry bs crts p j"
    and "\<forall>j. t < j \<and> j \<le> end \<longrightarrow> compare_entry bs crts p j < 0"
    and "compare_entry bs crts p t = 0"
    and "start \<le> middle" "middle \<le> end"
  shows "\<exists>evs'. bsearch_loop bs crts p start end middle nl evs =
           (True, t, entry_name_len bs crts t, evs' @ [Compare t])"
  using assms
proof (induction bs crts p start "end" middle nl evs rule: bsearch_loop.induct)
  case (1 bs crts issuer_p start "end" middle name_len evs)
  from "1.prems" have se: "start \<le> end" by simp
  consider "middle = t" | "middle < t" | "t < middle" by linarith
  then show ?case
  proof cases
    case 1
    with se "1.prems" show ?thesis
      by (subst bsearch_loop.simps) (simp add: Let_def)
  next
    case 2
    with "1.prems" have pos: "0 < compare_entry bs crts issuer_p middle" by simp
    have "\<exists>evs'. bsearch_loop bs crts issuer_p (middle + 1) end
                  (c_div2 ((middle + 1) + end)) (entry_name_len bs crts middle)
                  (evs @ [Compare middle]) = (True, t, entry_name_len bs crts t, evs' @ [Compare t])"
      using se pos 2 "1.prems" c_div2_between [of "middle + 1" "end"]
      by (intro "1.IH"(2)) auto
    with se pos show ?thesis
      by (subst bsearch_loop.simps) (simp add: Let_def)
  next
    case 3
    with "1.prems" have neg: "compare_entry bs crts issuer_p middle < 0" by simp
    have "\<exists>evs'. bsearch_loop bs crts issuer_p start (middle - 1)
                  (c_div2 (start + (middle - 1))) (entry_name_len bs crts middle)
                  (evs @ [Compare middle]) = (True, t, entry_name_len bs crts t, evs' @ [Compare t])"
      using se neg 3 "1.prems" c_div2_between [of start "middle - 1"]
      by (intro "1.IH"(1)) auto
    with se neg show ?thesis
      by (subst bsearch_loop.simps) (simp add: Let_def)
  qed
qed

subsection \<open>The verdict of the hook\<close>

text \<open>What the loop returns, and which comparisons it made on the way.\<close>

lemma bsearch_loop_result:
  assumes "start \<le> end \<longrightarrow> start \<le> middle \<and> middle \<le> end"
  shows "\<exists>found m nl' js.
           bsearch_loop bs crts p start end middle nl evs = (found, m, nl', evs @ map Compare js)
           \<and> (\<forall>j \<in> set js. start \<le> j \<and> j \<le> end
                  \<and> (compare_entry bs crts p j = 0 \<longrightarrow> found \<and> j = m))
           \<and> (found \<longrightarrow> m \<in> set js \<and> compare_entry bs crts p m = 0
                  \<and> nl' = entry_name_len bs crts m)
           \<and> (start \<le> end \<longrightarrow> js \<noteq> [])"
  using assms
proof (induction bs crts p start "end" middle nl evs rule: bsearch_loop.induct)
  case (1 bs crts issuer_p start "end" middle name_len evs)
  show ?case
  proof (cases "start \<le> end")
    case False
    then have "bsearch_loop bs crts issuer_p start end middle name_len evs =
                 (False, middle, name_len, evs @ map Compare [])"
      by (simp add: bsearch_loop.simps)
    with False show ?thesis by (intro exI [of _ False] exI [of _ middle] exI [of _ name_len] exI [of _ "[]"]) simp
  next
    case True
    with "1.prems" have mid: "start \<le> middle" "middle \<le> end" by simp_all
    let ?c = "compare_entry bs crts issuer_p middle"
    consider "?c = 0" | "?c < 0" | "0 < ?c" by linarith
    then show ?thesis
    proof cases
      case 1
      with True have "bsearch_loop bs crts issuer_p start end middle name_len evs =
                 (True, middle, entry_name_len bs crts middle, evs @ map Compare [middle])"
        by (subst bsearch_loop.simps) (simp add: Let_def)
      with 1 mid show ?thesis
        by (intro exI [of _ True] exI [of _ middle] exI [of _ "entry_name_len bs crts middle"]
              exI [of _ "[middle]"]) simp
    next
      case 2
      have "start \<le> middle - 1 \<longrightarrow>
              start \<le> c_div2 (start + (middle - 1)) \<and> c_div2 (start + (middle - 1)) \<le> middle - 1"
        by (auto simp: c_div2_def)
      from "1.IH"(1) [OF True refl refl refl _ 2 this] 2
      obtain found m nl' js where r:
        "bsearch_loop bs crts issuer_p start (middle - 1) (c_div2 (start + (middle - 1)))
           (entry_name_len bs crts middle) (evs @ [Compare middle])
         = (found, m, nl', (evs @ [Compare middle]) @ map Compare js)"
        "\<forall>j \<in> set js. start \<le> j \<and> j \<le> middle - 1
                  \<and> (compare_entry bs crts issuer_p j = 0 \<longrightarrow> found \<and> j = m)"
        "found \<longrightarrow> m \<in> set js \<and> compare_entry bs crts issuer_p m = 0
                  \<and> nl' = entry_name_len bs crts m"
        by auto
      from True 2 r(1) have "bsearch_loop bs crts issuer_p start end middle name_len evs =
          (found, m, nl', evs @ map Compare (middle # js))"
        by (subst bsearch_loop.simps) (simp add: Let_def)
      with r(2,3) 2 mid show ?thesis
        by (intro exI [of _ found] exI [of _ m] exI [of _ nl'] exI [of _ "middle # js"]) auto
    next
      case 3
      have "middle + 1 \<le> end \<longrightarrow>
              middle + 1 \<le> c_div2 ((middle + 1) + end) \<and> c_div2 ((middle + 1) + end) \<le> end"
        by (auto simp: c_div2_def)
      from "1.IH"(2) [OF True refl refl refl _ _ this] 3
      obtain found m nl' js where r:
        "bsearch_loop bs crts issuer_p (middle + 1) end (c_div2 ((middle + 1) + end))
           (entry_name_len bs crts middle) (evs @ [Compare middle])
         = (found, m, nl', (evs @ [Compare middle]) @ map Compare js)"
        "\<forall>j \<in> set js. middle + 1 \<le> j \<and> j \<le> end
                  \<and> (compare_entry bs crts issuer_p j = 0 \<longrightarrow> found \<and> j = m)"
        "found \<longrightarrow> m \<in> set js \<and> compare_entry bs crts issuer_p m = 0
                  \<and> nl' = entry_name_len bs crts m"
        by auto
      from True 3 r(1) have "bsearch_loop bs crts issuer_p start end middle name_len evs =
          (found, m, nl', evs @ map Compare (middle # js))"
        by (subst bsearch_loop.simps) (simp add: Let_def)
      with r(2,3) 3 mid show ?thesis
        by (intro exI [of _ found] exI [of _ m] exI [of _ nl'] exI [of _ "middle # js"]) auto
    qed
  qed
qed

lemma crtCheckCertificate_key_bytes:
  "read_mem m n = read_mem m' n' \<Longrightarrow>
   crtCheckCertificate L c m n = crtCheckCertificate L c m' n'"
  by (simp add: crtCheckCertificate_def)

lemma no_Compare_in_check:
  "Compare j \<notin> set (snd (crtCheckCertificate L c m n))"
  by (simp add: crtCheckCertificate_def Let_def split: prod.splits)

lemma length_public_key: "length (public_key bs crts i) = entry_key_len bs crts (int i)"
  by (simp add: public_key_def)

text \<open>
  C5: when the masked flags are exactly "untrusted", the hook either clears the flags and
  returns 0, or returns the fatal error and leaves the flags as they were. The first
  happens exactly when the lookup finds an entry and the signature check with that
  entry's key returns 0. The entry found is an entry of the bundle (its index is below the
  count), it is the one comparison of the search that yielded 0, the length returned with
  it is its \<open>name_len\<close>, and the key checked is the \<open>key_len\<close> bytes after its name. "Not
  found" means that every comparison made was a mismatch (and at least one was made when
  the bundle has entries); a store without index, a lookup without match and a failed
  signature check all give the fatal error. Every index compared is below the count.
\<close>

theorem verify_all_or_nothing:
  assumes "flags AND NOT BADCERT_BAD_MD = BADCERT_NOT_TRUSTED"
  shows "(case crtVerifyCallback L st crt flags of
            (ret, flags', evs) \<Rightarrow>
              (\<forall>j. Compare j \<in> set evs \<longrightarrow> 0 \<le> j \<and> j < int (bundle_num_certs st))
              \<and> (case find_entry st crt of
                 None \<Rightarrow>
                   ret = ERR_X509_FATAL_ERROR \<and> flags' = flags
                   \<and> (\<forall>j. Compare j \<in> set evs \<longrightarrow>
                          compare_entry (bundleBytes st) (the (bundle_crts st))
                            (buf_p (issuer_raw crt)) j \<noteq> 0)
                   \<and> (bundle_crts st \<noteq> None \<and> 0 < bundle_num_certs st \<longrightarrow> evs \<noteq> [])
               | Some e \<Rightarrow>
                   bundle_crts st \<noteq> None
                   \<and> 0 \<le> fst e \<and> fst e < int (bundle_num_certs st)
                   \<and> Compare (fst e) \<in> set evs
                   \<and> compare_entry (bundleBytes st) (the (bundle_crts st))
                        (buf_p (issuer_raw crt)) (fst e) = 0
                   \<and> snd e = entry_name_len (bundleBytes st) (the (bundle_crts st)) (fst e)
                   \<and> (\<forall>j. Compare j \<in> set evs \<and> j \<noteq> fst e \<longrightarrow>
                          compare_entry (bundleBytes st) (the (bundle_crts st))
                            (buf_p (issuer_raw crt)) j \<noteq> 0)
                   \<and> check_found L st crt e =
                       fst (crtCheckCertificate L crt
                              (mem_of (public_key (bundleBytes st) (the (bundle_crts st))
                                         (nat (fst e))))
                              (entry_key_len (bundleBytes st) (the (bundle_crts st)) (fst e)))
                   \<and> (if check_found L st crt e = 0 then ret = 0 \<and> flags' = 0
                       else ret = ERR_X509_FATAL_ERROR \<and> flags' = flags)))
         \<and> (bundle_crts st = None \<longrightarrow> find_entry st crt = None)
         \<and> ERR_X509_FATAL_ERROR \<noteq> 0"
proof (cases "bundle_crts st")
  case None
  with assms show ?thesis
    by (simp add: crtVerifyCallback_def find_entry_def ERR_X509_FATAL_ERROR_def)
next
  case (Some crts)
  let ?bs = "bundleBytes st" and ?p = "buf_p (issuer_raw crt)" and ?N = "bundle_num_certs st"
  have "0 \<le> int ?N - 1 \<longrightarrow> 0 \<le> c_div2 (int ?N - 1) \<and> c_div2 (int ?N - 1) \<le> int ?N - 1"
    by (auto simp: c_div2_def)
  from bsearch_loop_result [OF this, of ?bs crts ?p 0 "[]"]
  obtain found m nl' js where r:
    "bsearch_loop ?bs crts ?p 0 (int ?N - 1) (c_div2 (int ?N - 1)) 0 [] =
       (found, m, nl', map Compare js)"
    "\<forall>j \<in> set js. 0 \<le> j \<and> j \<le> int ?N - 1
        \<and> (compare_entry ?bs crts ?p j = 0 \<longrightarrow> found \<and> j = m)"
    "found \<longrightarrow> m \<in> set js \<and> compare_entry ?bs crts ?p m = 0 \<and> nl' = entry_name_len ?bs crts m"
    "0 \<le> int ?N - 1 \<longrightarrow> js \<noteq> []"
    by auto
  show ?thesis
  proof (cases found)
    case False
    with r(1) Some assms have cb: "crtVerifyCallback L st crt flags =
        (ERR_X509_FATAL_ERROR, flags, map Compare js)"
      by (simp add: crtVerifyCallback_def Let_def)
    from False r(1) Some have fe: "find_entry st crt = None"
      by (simp add: find_entry_def)
    have mem: "\<And>j. Compare j \<in> set (map Compare js) \<longleftrightarrow> j \<in> set js" by auto
    have A: "\<forall>j. Compare j \<in> set (map Compare js) \<longrightarrow> 0 \<le> j \<and> j < int ?N"
      using r(2) unfolding mem by auto
    have B: "\<forall>j. Compare j \<in> set (map Compare js) \<longrightarrow> compare_entry ?bs crts ?p j \<noteq> 0"
      using r(2) False unfolding mem by auto
    have C: "0 < ?N \<longrightarrow> map Compare js \<noteq> []"
      using r(4) by auto
    have D: "ERR_X509_FATAL_ERROR \<noteq> 0" by (simp add: ERR_X509_FATAL_ERROR_def)
    show ?thesis
      unfolding cb fe
      apply (simp only: prod.case option.case Some option.sel)
      apply (intro conjI)
      apply (rule A)
      apply (rule refl)
      apply (rule refl)
      apply (rule B)
      using C apply fast
      apply fast
      apply (rule D)
      done
  next
    case True
    with r(3) have m: "m \<in> set js" "compare_entry ?bs crts ?p m = 0"
      "nl' = entry_name_len ?bs crts m" by simp_all
    from bspec [OF r(2) m(1)] have m0: "0 \<le> m" "m < int ?N" by simp_all
    obtain ret calls where cc:
      "crtCheckCertificate L crt (at_off ?bs (crts ! nat m + 4 + nl')) (entry_key_len ?bs crts m)
         = (ret, calls)"
      by (cases "crtCheckCertificate L crt (at_off ?bs (crts ! nat m + 4 + nl'))
                   (entry_key_len ?bs crts m)")
    have nc: "\<And>j. Compare j \<notin> set calls"
      using no_Compare_in_check [of _ L crt "at_off ?bs (crts ! nat m + 4 + nl')"
          "entry_key_len ?bs crts m"]
      by (simp add: cc)
    define evs where "evs = map Compare js @ calls"
    from True r(1) Some assms cc have cb: "crtVerifyCallback L st crt flags =
        (if ret = 0 then (0, 0, evs) else (ERR_X509_FATAL_ERROR, flags, evs))"
      by (simp add: crtVerifyCallback_def Let_def evs_def)
    from True r(1) Some have fe: "find_entry st crt = Some (m, nl')"
      by (simp add: find_entry_def)
    have cf: "check_found L st crt (m, nl') = ret"
      using Some cc by (simp add: check_found_def)
    have "read_mem (at_off ?bs (crts ! nat m + 4 + nl')) (entry_key_len ?bs crts m) =
          public_key ?bs crts (nat m)"
      using m0 m(3) by (simp add: public_key_def)
    then have "read_mem (at_off ?bs (crts ! nat m + 4 + nl')) (entry_key_len ?bs crts m) =
          read_mem (mem_of (public_key ?bs crts (nat m))) (length (public_key ?bs crts (nat m)))"
      by (simp only: read_mem_mem_of)
    then have "crtCheckCertificate L crt (at_off ?bs (crts ! nat m + 4 + nl'))
                 (entry_key_len ?bs crts m)
          = crtCheckCertificate L crt (mem_of (public_key ?bs crts (nat m)))
              (length (public_key ?bs crts (nat m)))"
      by (rule crtCheckCertificate_key_bytes)
    moreover have "length (public_key ?bs crts (nat m)) = entry_key_len ?bs crts m"
      using m0 by (simp add: length_public_key)
    ultimately have "crtCheckCertificate L crt (mem_of (public_key ?bs crts (nat m)))
                 (entry_key_len ?bs crts m) = (ret, calls)"
      using cc by metis
    then have key: "check_found L st crt (m, nl') =
          fst (crtCheckCertificate L crt (mem_of (public_key ?bs crts (nat m)))
                 (entry_key_len ?bs crts m))"
      using cf by simp
    have mem: "\<And>j. Compare j \<in> set evs \<longleftrightarrow> j \<in> set js"
      using nc by (auto simp: evs_def)
    have A: "\<forall>j. Compare j \<in> set evs \<longrightarrow> 0 \<le> j \<and> j < int ?N"
    proof (intro allI impI)
      fix j assume "Compare j \<in> set evs"
      then have "j \<in> set js" by (simp only: mem)
      from bspec [OF r(2) this] show "0 \<le> j \<and> j < int ?N" by simp
    qed
    have B: "\<forall>j. Compare j \<in> set evs \<and> j \<noteq> m \<longrightarrow> compare_entry ?bs crts ?p j \<noteq> 0"
    proof (intro allI impI)
      fix j assume a: "Compare j \<in> set evs \<and> j \<noteq> m"
      then have "j \<in> set js" by (simp only: mem)
      from bspec [OF r(2) this] a show "compare_entry ?bs crts ?p j \<noteq> 0" by blast
    qed
    have C: "Compare m \<in> set evs" using m(1) unfolding mem .
    have D: "ERR_X509_FATAL_ERROR \<noteq> 0" by (simp add: ERR_X509_FATAL_ERROR_def)
    have F: "Some crts \<noteq> None" by simp
    have G: "Some crts = None \<longrightarrow> Some (m, nl') = None" by simp
    show ?thesis
    proof (cases "ret = 0")
      case True
      with cf have z: "check_found L st crt (m, nl') = 0" by simp
      from cb True have cb': "crtVerifyCallback L st crt flags = (0, 0, evs)" by simp
      have H: "if check_found L st crt (m, nl') = 0 then (0 :: int) = 0 \<and> (0 :: u32) = 0
               else (0 :: int) = ERR_X509_FATAL_ERROR \<and> (0 :: u32) = flags"
        using z by simp
      show ?thesis
        unfolding cb' fe
        apply (simp only: prod.case option.case Some option.sel fst_conv snd_conv)
        apply (intro conjI)
        apply (rule A)
        apply (rule F)
        apply (rule m0(1))
        apply (rule m0(2))
        apply (rule C)
        apply (rule m(2))
        apply (rule m(3))
        apply (rule B)
        apply (rule key)
        apply (rule H)
        apply (rule G)
        apply (rule D)
        done
    next
      case False
      with cf have z: "check_found L st crt (m, nl') \<noteq> 0" by simp
      from cb False have cb': "crtVerifyCallback L st crt flags = (ERR_X509_FATAL_ERROR, flags, evs)"
        by simp
      have H: "if check_found L st crt (m, nl') = 0 then ERR_X509_FATAL_ERROR = 0 \<and> flags = 0
               else ERR_X509_FATAL_ERROR = ERR_X509_FATAL_ERROR \<and> flags = flags"
        using z by simp
      show ?thesis
        unfolding cb' fe
        apply (simp only: prod.case option.case Some option.sel fst_conv snd_conv)
        apply (intro conjI)
        apply (rule A)
        apply (rule F)
        apply (rule m0(1))
        apply (rule m0(2))
        apply (rule C)
        apply (rule m(2))
        apply (rule m(3))
        apply (rule B)
        apply (rule key)
        apply (rule H)
        apply (rule G)
        apply (rule D)
        done
    qed
  qed
qed

lemma sample_lookups:
  "find_entry store_A crt_good = Some (0, Suc 0)
   \<and> check_found toy_lib store_A crt_good (0, Suc 0) = 0
   \<and> find_entry store_A crt_tampered = Some (0, Suc 0)
   \<and> check_found toy_lib store_A crt_tampered (0, Suc 0) = - 3
   \<and> find_entry store_A crt_by_B = None
   \<and> find_entry initial_store crt_good = None"
  by code_simp

theorem verify_all_or_nothing_witness:
  "BADCERT_NOT_TRUSTED AND NOT BADCERT_BAD_MD = BADCERT_NOT_TRUSTED
   \<and> fst (crtVerifyCallback toy_lib store_A crt_good BADCERT_NOT_TRUSTED) = 0
   \<and> fst (snd (crtVerifyCallback toy_lib store_A crt_good BADCERT_NOT_TRUSTED)) = 0
   \<and> fst (crtVerifyCallback toy_lib store_A crt_tampered BADCERT_NOT_TRUSTED)
        = ERR_X509_FATAL_ERROR
   \<and> fst (snd (crtVerifyCallback toy_lib store_A crt_tampered BADCERT_NOT_TRUSTED))
        = BADCERT_NOT_TRUSTED
   \<and> fst (crtVerifyCallback toy_lib store_A crt_by_B BADCERT_NOT_TRUSTED)
        = ERR_X509_FATAL_ERROR
   \<and> fst (crtVerifyCallback toy_lib initial_store crt_good BADCERT_NOT_TRUSTED)
        = ERR_X509_FATAL_ERROR"
proof -
  have h: "BADCERT_NOT_TRUSTED AND NOT BADCERT_BAD_MD = BADCERT_NOT_TRUSTED"
    by (simp add: flag_defs)
  have 1: "fst (crtVerifyCallback toy_lib store_A crt_good BADCERT_NOT_TRUSTED) = 0
           \<and> fst (snd (crtVerifyCallback toy_lib store_A crt_good BADCERT_NOT_TRUSTED)) = 0"
    using verify_all_or_nothing [OF h, where L = toy_lib and st = store_A and crt = crt_good] sample_lookups
    by (cases "crtVerifyCallback toy_lib store_A crt_good BADCERT_NOT_TRUSTED") simp
  have 2: "fst (crtVerifyCallback toy_lib store_A crt_tampered BADCERT_NOT_TRUSTED)
             = ERR_X509_FATAL_ERROR
           \<and> fst (snd (crtVerifyCallback toy_lib store_A crt_tampered BADCERT_NOT_TRUSTED))
             = BADCERT_NOT_TRUSTED"
    using verify_all_or_nothing [OF h, where L = toy_lib and st = store_A and crt = crt_tampered] sample_lookups
    by (cases "crtVerifyCallback toy_lib store_A crt_tampered BADCERT_NOT_TRUSTED") simp
  have 3: "fst (crtVerifyCallback toy_lib store_A crt_by_B BADCERT_NOT_TRUSTED)
             = ERR_X509_FATAL_ERROR"
    using verify_all_or_nothing [OF h, where L = toy_lib and st = store_A and crt = crt_by_B] sample_lookups
    by (cases "crtVerifyCallback toy_lib store_A crt_by_B BADCERT_NOT_TRUSTED") simp
  have 4: "fst (crtVerifyCallback toy_lib initial_store crt_good BADCERT_NOT_TRUSTED)
             = ERR_X509_FATAL_ERROR"
    using verify_all_or_nothing [OF h, where L = toy_lib and st = initial_store and crt = crt_good] sample_lookups
    by (cases "crtVerifyCallback toy_lib initial_store crt_good BADCERT_NOT_TRUSTED") simp
  from h 1 2 3 4 show ?thesis by blast
qed

subsection \<open>Comparisons and the order of names\<close>

lemma differs_below_Cons:
  "differs_below (x # xs) (y # ys) \<longleftrightarrow> x < y \<or> (x = y \<and> differs_below xs ys)"
proof
  assume "differs_below (x # xs) (y # ys)"
  then obtain d where d: "d < length (x # xs)" "d < length (y # ys)"
    "take d (x # xs) = take d (y # ys)" "(x # xs) ! d < (y # ys) ! d"
    unfolding differs_below_def by blast
  show "x < y \<or> (x = y \<and> differs_below xs ys)"
  proof (cases d)
    case 0
    with d show ?thesis by simp
  next
    case (Suc d')
    with d have "x = y" "d' < length xs" "d' < length ys" "take d' xs = take d' ys"
      "xs ! d' < ys ! d'" by simp_all
    then show ?thesis unfolding differs_below_def by blast
  qed
next
  assume "x < y \<or> (x = y \<and> differs_below xs ys)"
  then show "differs_below (x # xs) (y # ys)"
  proof
    assume "x < y"
    then show ?thesis unfolding differs_below_def by (intro exI [of _ 0]) simp
  next
    assume a: "x = y \<and> differs_below xs ys"
    then obtain d where "d < length xs" "d < length ys" "take d xs = take d ys" "xs ! d < ys ! d"
      unfolding differs_below_def by blast
    with a show ?thesis unfolding differs_below_def by (intro exI [of _ "Suc d"]) simp
  qed
qed

lemma differs_below_Nil [simp]: "\<not> differs_below [] b" "\<not> differs_below a []"
  by (simp_all add: differs_below_def)

lemma less_bytes_iff:
  "a < b \<longleftrightarrow> strict_prefix a b \<or> differs_below a (b :: u8 list)"
proof (induction a arbitrary: b)
  case Nil
  then show ?case by (cases b) simp_all
next
  case (Cons x xs)
  show ?case
  proof (cases b)
    case Nil
    then show ?thesis by simp
  next
    case (Cons y ys)
    with Cons.IH [of ys] show ?thesis
      by (auto simp: differs_below_Cons)
  qed
qed

lemma differs_below_not_prefix: "differs_below a b \<Longrightarrow> \<not> prefix a b \<and> \<not> prefix b a"
proof (induction a arbitrary: b)
  case Nil
  then show ?case by simp
next
  case (Cons x xs)
  then show ?case by (cases b) (auto simp: differs_below_Cons)
qed

lemma differs_below_less: "differs_below a b \<Longrightarrow> a < b"
  by (simp add: less_bytes_iff)

text \<open>What diverges below a name diverges below every later name.\<close>
lemma differs_below_le:
  assumes "differs_below x f" "f \<le> n"
  shows "differs_below x n"
  using assms
proof (induction x arbitrary: f n)
  case Nil
  then show ?case by simp
next
  case (Cons a x)
  from Cons.prems(1) obtain b f' where f: "f = b # f'" by (cases f) simp_all
  from Cons.prems(2) f obtain c n' where n: "n = c # n'" by (cases n) simp_all
  from Cons.prems f n have ab: "a < b \<or> (a = b \<and> differs_below x f')"
    and bc: "b < c \<or> (b = c \<and> f' \<le> n')"
    by (auto simp: differs_below_Cons)
  then show ?case
    using Cons.IH [of f' n'] n by (auto simp: differs_below_Cons)
qed

lemma memcmp_prefix:
  assumes "prefix n (read_mem p k)"
  shows "memcmp_bytes (read_mem p (length n)) n = 0"
proof -
  from assms have "length n \<le> k" using prefix_length_le by fastforce
  moreover from assms have "take (length n) (read_mem p k) = n"
    by (metis append_eq_conv_conj prefix_def)
  ultimately show ?thesis by (simp add: take_read_mem)
qed

lemma memcmp_below:
  assumes "differs_below (read_mem p k) n"
  shows "memcmp_bytes (read_mem p (length n)) n < 0"
proof -
  from assms obtain d where d: "d < k" "d < length n" "take d (read_mem p k) = take d n"
    "read_mem p k ! d < n ! d"
    unfolding differs_below_def by auto
  then have "take d (read_mem p (length n)) = take d n" "read_mem p (length n) ! d = p d"
    "p d < n ! d"
    by (simp_all add: take_read_mem)
  then have "memcmp_bytes (read_mem p (length n)) n = int (unat (p d)) - int (unat (n ! d))"
    using d memcmp_bytes_first_difference [of "read_mem p (length n)" n d] by simp
  with \<open>p d < n ! d\<close> show ?thesis by (simp add: word_less_def)
qed

lemma memcmp_above:
  assumes "differs_below n (read_mem p k)"
  shows "0 < memcmp_bytes (read_mem p (length n)) n"
proof -
  from assms obtain d where d: "d < k" "d < length n" "take d n = take d (read_mem p k)"
    "n ! d < read_mem p k ! d"
    unfolding differs_below_def by auto
  then have "take d (read_mem p (length n)) = take d n" "read_mem p (length n) ! d = p d"
    "n ! d < p d"
    by (simp_all add: take_read_mem)
  then have "memcmp_bytes (read_mem p (length n)) n = int (unat (p d)) - int (unat (n ! d))"
    using d memcmp_bytes_first_difference [of "read_mem p (length n)" n d] by simp
  with \<open>n ! d < p d\<close> show ?thesis by (simp add: word_less_def)
qed

lemma compare_entry_eq:
  "compare_entry bs crts p (int i) =
     memcmp_bytes (read_mem p (length (subject_name bs crts i))) (subject_name bs crts i)"
  by (simp add: compare_entry_def subject_name_def memcmp_def Let_def)

lemma compare_entry_zero_iff:
  "compare_entry bs crts p (int i) = 0 \<longleftrightarrow>
     read_mem p (entry_name_len bs crts (int i)) = subject_name bs crts i"
  by (simp add: compare_entry_def subject_name_def memcmp_def Let_def memcmp_bytes_zero_iff)

lemma compare_entry_reads_name_len:
  "read_mem p' (entry_name_len bs crts m) = read_mem p (entry_name_len bs crts m) \<Longrightarrow>
   compare_entry bs crts p' m = compare_entry bs crts p m"
  by (simp add: compare_entry_def memcmp_def Let_def)

lemma find_entry_Some_crts:
  "bundle_crts st = Some crts \<Longrightarrow>
   find_entry st crt =
     (case bsearch_loop (bundleBytes st) crts (buf_p (issuer_raw crt)) 0
             (int (bundle_num_certs st) - 1) (c_div2 (int (bundle_num_certs st) - 1)) 0 [] of
        (crt_found, middle, name_len, evs) \<Rightarrow>
          if crt_found then Some (middle, name_len) else None)"
  by (simp add: find_entry_def)

lemma c_div2_initial: "0 \<le> e \<Longrightarrow> 0 \<le> c_div2 e \<and> c_div2 e \<le> e"
  by (auto simp: c_div2_def)

lemma verdict_not_found:
  "flags AND NOT BADCERT_BAD_MD = BADCERT_NOT_TRUSTED \<Longrightarrow> find_entry st crt = None \<Longrightarrow>
   \<exists>evs. crtVerifyCallback L st crt flags = (ERR_X509_FATAL_ERROR, flags, evs)"
  by (auto simp: crtVerifyCallback_def find_entry_def Let_def split: option.splits prod.splits if_splits)

lemma nth_subject_names:
  "i < bundle_num_certs st \<Longrightarrow>
   subject_names st ! i = subject_name (bundleBytes st) (the (bundle_crts st)) i"
  by (simp add: subject_names_def)

lemma length_subject_names [simp]: "length (subject_names st) = bundle_num_certs st"
  by (simp add: subject_names_def)

text \<open>
  C3: the comparison of the binary search reads exactly \<open>name_len\<close> bytes of the
  candidate, the \<open>subjectName\<close> after its header, and as many bytes at the issuer
  pointer: it yields 0 exactly when these \<open>name_len\<close> bytes at the issuer pointer are
  the \<open>subjectName\<close>, and it is the same for any two pointers with the same first
  \<open>name_len\<close> bytes. The issuer's own length is never read: when the issuer is strictly
  longer than the candidate's \<open>subjectName\<close> and starts with it, the comparison yields
  0, and the loop, arriving at this candidate, stops with a match; and the hook's answer
  is the same whatever length is recorded for the issuer.
\<close>

theorem prefix_issuer_compares_equal:
  "(compare_entry bs crts (buf_p (issuer_raw crt)) (int i) = 0 \<longleftrightarrow>
      read_mem (buf_p (issuer_raw crt)) (entry_name_len bs crts (int i)) = subject_name bs crts i)
   \<and> length (subject_name bs crts i) = entry_name_len bs crts (int i)
   \<and> (read_mem p' (entry_name_len bs crts (int i)) =
          read_mem (buf_p (issuer_raw crt)) (entry_name_len bs crts (int i)) \<longrightarrow>
        compare_entry bs crts p' (int i) = compare_entry bs crts (buf_p (issuer_raw crt)) (int i))
   \<and> (strict_prefix (subject_name bs crts i) (buf_bytes (issuer_raw crt)) \<longrightarrow>
        compare_entry bs crts (buf_p (issuer_raw crt)) (int i) = 0
        \<and> (lo \<le> hi \<longrightarrow>
              bsearch_loop bs crts (buf_p (issuer_raw crt)) lo hi (int i) nl evs =
                (True, int i, length (subject_name bs crts i), evs @ [Compare (int i)])))
   \<and> crtVerifyCallback L st (crt\<lparr>issuer_raw := (issuer_raw crt)\<lparr>buf_len := k\<rparr>\<rparr>) flags =
       crtVerifyCallback L st crt flags"
proof -
  have len: "length (subject_name bs crts i) = entry_name_len bs crts (int i)"
    by (simp add: subject_name_def)
  have pre: "compare_entry bs crts (buf_p (issuer_raw crt)) (int i) = 0
        \<and> (lo \<le> hi \<longrightarrow>
              bsearch_loop bs crts (buf_p (issuer_raw crt)) lo hi (int i) nl evs =
                (True, int i, length (subject_name bs crts i), evs @ [Compare (int i)]))"
    if sp: "strict_prefix (subject_name bs crts i) (buf_bytes (issuer_raw crt))"
  proof -
    from sp have "prefix (subject_name bs crts i)
                    (read_mem (buf_p (issuer_raw crt)) (buf_len (issuer_raw crt)))"
      by (simp add: buf_bytes_def strict_prefix_def)
    then have eq: "compare_entry bs crts (buf_p (issuer_raw crt)) (int i) = 0"
      by (simp add: compare_entry_eq memcmp_prefix)
    have "lo \<le> hi \<longrightarrow>
          bsearch_loop bs crts (buf_p (issuer_raw crt)) lo hi (int i) nl evs =
            (True, int i, length (subject_name bs crts i), evs @ [Compare (int i)])"
      using eq len by (subst bsearch_loop.simps) (simp add: Let_def)
    with eq show ?thesis by simp
  qed
  have ind: "crtVerifyCallback L st (crt\<lparr>issuer_raw := (issuer_raw crt)\<lparr>buf_len := k\<rparr>\<rparr>) flags =
             crtVerifyCallback L st crt flags"
    by (simp add: crtVerifyCallback_def crtCheckCertificate_def Let_def
          cong: option.case_cong prod.case_cong if_cong)
  show ?thesis
    using len pre ind compare_entry_zero_iff [of bs crts "buf_p (issuer_raw crt)" i]
      compare_entry_reads_name_len [of p' bs crts "int i" "buf_p (issuer_raw crt)"]
    by blast
qed

lemma sample_prefix_issuer:
  "subject_name bundle_ABC [2, 8, 14] 2 = [67] \<and> buf_bytes (issuer_raw crt_by_CC) = [67, 67]"
  by code_simp

lemma sample_comparisons:
  "read_mem (buf_p (issuer_raw crt_by_B)) 1 = [66]
   \<and> subject_name bundle_ABC [2, 8, 14] 0 = [65]
   \<and> entry_name_len bundle_ABC [2, 8, 14] 0 = 1
   \<and> entry_name_len bundle_ABC [2, 8, 14] 2 = 1
   \<and> read_mem (mem_of [67]) 1 = read_mem (buf_p (issuer_raw crt_by_CC)) 1"
  by code_simp

theorem prefix_issuer_compares_equal_witness:
  "strict_prefix (subject_name bundle_ABC [2, 8, 14] 2) (buf_bytes (issuer_raw crt_by_CC))
   \<and> compare_entry bundle_ABC [2, 8, 14] (buf_p (issuer_raw crt_by_CC)) 2 = 0
   \<and> bsearch_loop bundle_ABC [2, 8, 14] (buf_p (issuer_raw crt_by_CC)) 2 2 2 0 [] =
       (True, 2, 1, [Compare 2])
   \<and> compare_entry bundle_ABC [2, 8, 14] (mem_of [67]) 2 = 0
   \<and> compare_entry bundle_ABC [2, 8, 14] (buf_p (issuer_raw crt_by_B)) 0 \<noteq> 0"
proof -
  have h: "strict_prefix (subject_name bundle_ABC [2, 8, 14] 2) (buf_bytes (issuer_raw crt_by_CC))"
    using sample_prefix_issuer by simp
  have r: "read_mem (mem_of [67]) (entry_name_len bundle_ABC [2, 8, 14] (int 2)) =
           read_mem (buf_p (issuer_raw crt_by_CC)) (entry_name_len bundle_ABC [2, 8, 14] (int 2))"
    using sample_comparisons by simp
  have d: "read_mem (buf_p (issuer_raw crt_by_B)) (entry_name_len bundle_ABC [2, 8, 14] (int 0))
             \<noteq> subject_name bundle_ABC [2, 8, 14] 0"
    using sample_comparisons by simp
  from prefix_issuer_compares_equal [where bs = bundle_ABC and crts = "[2, 8, 14]" and i = 2
      and crt = crt_by_CC and p' = "mem_of [67]" and lo = 2 and hi = 2 and nl = 0
      and evs = "[]" and L = toy_lib and st = store_ABC and k = 0 and flags = 0]
  have 1: "compare_entry bundle_ABC [2, 8, 14] (buf_p (issuer_raw crt_by_CC)) 2 = 0
           \<and> bsearch_loop bundle_ABC [2, 8, 14] (buf_p (issuer_raw crt_by_CC)) 2 2 2 0 [] =
               (True, 2, 1, [Compare 2])
           \<and> compare_entry bundle_ABC [2, 8, 14] (mem_of [67]) 2 = 0"
    using h r sample_prefix_issuer by simp
  from prefix_issuer_compares_equal [where bs = bundle_ABC and crts = "[2, 8, 14]" and i = 0
      and crt = crt_by_B and p' = "mem_of []" and lo = 0 and hi = 0 and nl = 0
      and evs = "[]" and L = toy_lib and st = store_ABC and k = 0 and flags = 0]
  have 2: "compare_entry bundle_ABC [2, 8, 14] (buf_p (issuer_raw crt_by_B)) 0 \<noteq> 0"
    using d by simp
  from h 1 2 show ?thesis by blast
qed

subsection \<open>Issuers outside the range of the names\<close>

text \<open>
  C4, as the code has it: in a store whose names are sorted, a lookup is answered "not
  found", and the hook returns the fatal error with the flags unchanged, when the issuer
  is strictly before the first name without being a prefix of it, or strictly after the
  last name without starting with any name of the bundle.
\<close>

theorem lookup_outside_names_not_found:
  assumes crts: "bundle_crts st = Some crts"
    and sorted: "sorted (subject_names st)"
    and ne: "subject_names st \<noteq> []"
    and flags: "flags AND NOT BADCERT_BAD_MD = BADCERT_NOT_TRUSTED"
    and out: "(buf_bytes (issuer_raw crt) < hd (subject_names st)
                 \<and> \<not> prefix (buf_bytes (issuer_raw crt)) (hd (subject_names st)))
              \<or> (last (subject_names st) < buf_bytes (issuer_raw crt)
                 \<and> (\<forall>n \<in> set (subject_names st). \<not> prefix n (buf_bytes (issuer_raw crt))))"
  shows "find_entry st crt = None
         \<and> (\<exists>evs. crtVerifyCallback L st crt flags = (ERR_X509_FATAL_ERROR, flags, evs))"
proof -
  let ?bs = "bundleBytes st" and ?p = "buf_p (issuer_raw crt)" and ?k = "buf_len (issuer_raw crt)"
  let ?x = "buf_bytes (issuer_raw crt)" and ?N = "bundle_num_certs st"
  have x: "?x = read_mem ?p ?k" by (simp add: buf_bytes_def)
  have N: "0 < ?N" using ne by (cases "?N") (simp_all add: subject_names_def)
  have name: "\<And>j. j < ?N \<Longrightarrow> subject_names st ! j = subject_name ?bs crts j"
    using crts by (simp add: nth_subject_names)
  have mid: "0 \<le> c_div2 (int ?N - 1) \<and> c_div2 (int ?N - 1) \<le> int ?N - 1"
    using N by (intro c_div2_initial) simp
  from out have "\<not> fst (bsearch_loop ?bs crts ?p 0 (int ?N - 1) (c_div2 (int ?N - 1)) 0 [])"
  proof
    assume before: "?x < hd (subject_names st) \<and> \<not> prefix ?x (hd (subject_names st))"
    then have d0: "differs_below ?x (hd (subject_names st))"
      by (auto simp: less_bytes_iff strict_prefix_def)
    have "\<forall>j. 0 \<le> j \<and> j \<le> int ?N - 1 \<longrightarrow> compare_entry ?bs crts ?p j < 0"
    proof (intro allI impI)
      fix j :: int
      assume j: "0 \<le> j \<and> j \<le> int ?N - 1"
      then obtain i where i: "j = int i" "i < ?N" by (cases j) auto
      have "hd (subject_names st) \<le> subject_names st ! i"
        using sorted i ne by (cases i) (simp_all add: hd_conv_nth sorted_nth_mono)
      with d0 have "differs_below ?x (subject_name ?bs crts i)"
        using differs_below_le name [OF i(2)] by metis
      then show "compare_entry ?bs crts ?p j < 0"
        using i by (simp add: compare_entry_eq x memcmp_below)
    qed
    then show ?thesis using mid by (intro bsearch_all_below) simp_all
  next
    assume after: "last (subject_names st) < ?x \<and> (\<forall>n \<in> set (subject_names st). \<not> prefix n ?x)"
    have "\<forall>j. 0 \<le> j \<and> j \<le> int ?N - 1 \<longrightarrow> 0 < compare_entry ?bs crts ?p j"
    proof (intro allI impI)
      fix j :: int
      assume j: "0 \<le> j \<and> j \<le> int ?N - 1"
      then obtain i where i: "j = int i" "i < ?N" by (cases j) auto
      have "subject_names st ! i \<le> last (subject_names st)"
        using sorted i ne by (simp add: last_conv_nth sorted_nth_mono)
      with after have "subject_names st ! i < ?x" by (meson le_less_trans)
      moreover have "\<not> prefix (subject_names st ! i) ?x"
        using after i by simp
      ultimately have "differs_below (subject_name ?bs crts i) ?x"
        using name [OF i(2)] by (auto simp: less_bytes_iff strict_prefix_def)
      then show "0 < compare_entry ?bs crts ?p j"
        using i by (simp add: compare_entry_eq x memcmp_above)
    qed
    then show ?thesis using mid by (intro bsearch_all_above) simp_all
  qed
  then have "find_entry st crt = None"
    using crts by (auto simp: find_entry_Some_crts split: prod.splits)
  with flags show ?thesis
    using verdict_not_found by blast
qed

lemma sample_outside:
  "bundle_crts store_ABC = Some [2, 8, 14]
   \<and> subject_names store_ABC = [[65], [66], [67]]
   \<and> buf_bytes (issuer_raw crt_by_at) = [64]
   \<and> buf_bytes (issuer_raw crt_by_D) = [68]"
  by code_simp

theorem lookup_outside_names_not_found_witness:
  "find_entry store_ABC crt_by_at = None
   \<and> fst (crtVerifyCallback toy_lib store_ABC crt_by_at BADCERT_NOT_TRUSTED) = ERR_X509_FATAL_ERROR
   \<and> find_entry store_ABC crt_by_D = None
   \<and> fst (crtVerifyCallback toy_lib store_ABC crt_by_D BADCERT_NOT_TRUSTED) = ERR_X509_FATAL_ERROR"
proof -
  have h: "BADCERT_NOT_TRUSTED AND NOT BADCERT_BAD_MD = BADCERT_NOT_TRUSTED"
    by (simp add: flag_defs)
  have crts: "bundle_crts store_ABC = Some [2, 8, 14]"
    and sorted: "sorted (subject_names store_ABC)"
    and ne: "subject_names store_ABC \<noteq> []"
    using sample_outside by simp_all
  have before: "(buf_bytes (issuer_raw crt_by_at) < hd (subject_names store_ABC)
                 \<and> \<not> prefix (buf_bytes (issuer_raw crt_by_at)) (hd (subject_names store_ABC)))
              \<or> (last (subject_names store_ABC) < buf_bytes (issuer_raw crt_by_at)
                 \<and> (\<forall>n \<in> set (subject_names store_ABC). \<not> prefix n (buf_bytes (issuer_raw crt_by_at))))"
    using sample_outside by simp
  have after: "(buf_bytes (issuer_raw crt_by_D) < hd (subject_names store_ABC)
                 \<and> \<not> prefix (buf_bytes (issuer_raw crt_by_D)) (hd (subject_names store_ABC)))
              \<or> (last (subject_names store_ABC) < buf_bytes (issuer_raw crt_by_D)
                 \<and> (\<forall>n \<in> set (subject_names store_ABC). \<not> prefix n (buf_bytes (issuer_raw crt_by_D))))"
    using sample_outside by simp
  from lookup_outside_names_not_found [OF crts sorted ne h before, of toy_lib]
    lookup_outside_names_not_found [OF crts sorted ne h after, of toy_lib]
  show ?thesis by auto
qed

text \<open>
  Without the two provisos the lookup can match. In the bundle of "A", "B", "C" the issuer
  "CC" is after the last name and is found at "C", whose key verifies the certificate. In
  the bundle of "AB", "AC" the issuer "A" is before the first name; the comparison reads
  two bytes at the issuer pointer, and when the byte after the issuer is "C" the lookup
  finds "AC".
\<close>

theorem longer_issuer_found_shorter_issuer_found:
  "sorted (subject_names store_ABC)
   \<and> last (subject_names store_ABC) < buf_bytes (issuer_raw crt_by_CC)
   \<and> find_entry store_ABC crt_by_CC = Some (2, 1)
   \<and> fst (crtVerifyCallback toy_lib store_ABC crt_by_CC BADCERT_NOT_TRUSTED) = 0
   \<and> sorted (subject_names store_AB_AC)
   \<and> buf_bytes (issuer_raw crt_by_A_before_C) < hd (subject_names store_AB_AC)
   \<and> find_entry store_AB_AC crt_by_A_before_C = Some (1, 2)
   \<and> fst (crtVerifyCallback toy_lib store_AB_AC crt_by_A_before_C BADCERT_NOT_TRUSTED) = 0"
  by code_simp

subsection \<open>Encoded bundles\<close>

lemma length_enc16 [simp]: "length (format_u16 n) = 2"
  by (simp add: format_u16_def)

lemma length_encode_entry: "length (format_entry e) = 4 + length (fst e) + length (snd e)"
  by (simp add: format_entry_def)

lemma encode_entry_nth:
  "format_entry e ! 0 = format_u16 (length (fst e)) ! 0"
  "format_entry e ! Suc 0 = format_u16 (length (fst e)) ! Suc 0"
  "format_entry e ! 2 = format_u16 (length (snd e)) ! 0"
  "format_entry e ! 3 = format_u16 (length (snd e)) ! Suc 0"
  "k < length (fst e) \<Longrightarrow> format_entry e ! (4 + k) = fst e ! k"
  "k < length (snd e) \<Longrightarrow> format_entry e ! (4 + length (fst e) + k) = snd e ! k"
  by (simp_all add: format_entry_def format_u16_def nth_append)

lemma entry_offset_Suc:
  "i < length ps \<Longrightarrow> format_entry_offset ps (Suc i) = format_entry_offset ps i + length (format_entry (ps ! i))"
  by (simp add: format_entry_offset_def take_Suc_conv_app_nth)

lemma length_encode_bundle: "length (format_bundle ps) = format_entry_offset ps (length ps)"
  by (simp add: format_bundle_def format_entry_offset_def)

lemma encode_bundle_at_entry:
  assumes "i < length ps" "k < length (format_entry (ps ! i))"
  shows "format_bundle ps ! (format_entry_offset ps i + k) = format_entry (ps ! i) ! k"
proof -
  let ?A = "format_u16 (length ps) @ concat (map format_entry (take i ps))"
  let ?R = "concat (map format_entry (drop (Suc i) ps))"
  have split: "take i ps @ ps ! i # drop (Suc i) ps = ps"
    using id_take_nth_drop [OF assms(1)] by simp
  have "concat (map format_entry (take i ps @ ps ! i # drop (Suc i) ps)) =
      concat (map format_entry (take i ps)) @ format_entry (ps ! i) @ ?R"
    by simp
  then have "format_bundle ps = ?A @ format_entry (ps ! i) @ ?R"
    unfolding split by (simp add: format_bundle_def)
  moreover have "length ?A = format_entry_offset ps i"
    by (simp add: format_entry_offset_def)
  ultimately have "format_bundle ps ! (format_entry_offset ps i + k) = (format_entry (ps ! i) @ ?R) ! k"
    using nth_append_length_plus [of ?A "format_entry (ps ! i) @ ?R" k] by simp
  with assms(2) show ?thesis by (simp add: nth_append)
qed

lemma encodable_nth:
  "format_fits ps \<Longrightarrow> i < length ps \<Longrightarrow> length (fst (ps ! i)) < 65536 \<and> length (snd (ps ! i)) < 65536"
  by (simp add: format_fits_def)

lemma header_at_entry:
  assumes "format_fits ps" "i < length ps"
  shows "be16 (format_bundle ps ! format_entry_offset ps i) (format_bundle ps ! (format_entry_offset ps i + 1))
           = length (fst (ps ! i))"
    and "be16 (format_bundle ps ! (format_entry_offset ps i + 2)) (format_bundle ps ! (format_entry_offset ps i + 3))
           = length (snd (ps ! i))"
proof -
  have k: "0 < length (format_entry (ps ! i))" "1 < length (format_entry (ps ! i))"
    "2 < length (format_entry (ps ! i))" "3 < length (format_entry (ps ! i))"
    by (simp_all add: length_encode_entry)
  show "be16 (format_bundle ps ! format_entry_offset ps i) (format_bundle ps ! (format_entry_offset ps i + 1))
           = length (fst (ps ! i))"
    using encode_bundle_at_entry [OF assms(2) k(1)] encode_bundle_at_entry [OF assms(2) k(2)]
      encodable_nth [OF assms]
    by (simp add: encode_entry_nth be16_enc16)
  show "be16 (format_bundle ps ! (format_entry_offset ps i + 2)) (format_bundle ps ! (format_entry_offset ps i + 3))
           = length (snd (ps ! i))"
    using encode_bundle_at_entry [OF assms(2) k(3)] encode_bundle_at_entry [OF assms(2) k(4)]
      encodable_nth [OF assms]
    by (simp add: encode_entry_nth be16_enc16)
qed

lemma cursor_encode_bundle:
  "format_fits ps \<Longrightarrow> i \<le> length ps \<Longrightarrow> format_cursor (format_bundle ps) i = format_entry_offset ps i"
proof (induction i)
  case 0
  then show ?case by (simp add: format_entry_offset_def)
next
  case (Suc i)
  then have i: "i < length ps" and c: "format_cursor (format_bundle ps) i = format_entry_offset ps i"
    by simp_all
  show ?case
    using header_at_entry [OF Suc.prems(1) i] c
    by (simp add: entry_offset_Suc [OF i] length_encode_entry)
qed

lemma declared_count_encode_bundle:
  "format_fits ps \<Longrightarrow> format_count (format_bundle ps) = length ps"
  using be16_enc16 [of "length ps"]
  by (simp add: format_count_def format_bundle_def format_fits_def nth_append)

lemma lookup_finds_own_name:
  assumes crts: "bundle_crts st = Some crts"
    and sorted: "sorted (subject_names st)"
    and pf: "prefix_free (subject_names st)"
    and i: "i < bundle_num_certs st"
    and x: "buf_bytes (issuer_raw crt) = subject_names st ! i"
  shows "find_entry st crt = Some (int i, length (subject_names st ! i))"
proof -
  let ?bs = "bundleBytes st" and ?p = "buf_p (issuer_raw crt)" and ?k = "buf_len (issuer_raw crt)"
  let ?N = "bundle_num_certs st"
  let ?ns = "subject_names st"
  have rd: "read_mem ?p ?k = ?ns ! i" using x by (simp add: buf_bytes_def)
  have name: "\<And>j. j < ?N \<Longrightarrow> ?ns ! j = subject_name ?bs crts j"
    using crts by (simp add: nth_subject_names)
  have apart: "\<And>a b. a < ?N \<Longrightarrow> b < ?N \<Longrightarrow> a \<noteq> b \<Longrightarrow> \<not> prefix (?ns ! a) (?ns ! b)"
  proof
    fix a b assume ab: "a < ?N" "b < ?N" "a \<noteq> b" and "prefix (?ns ! a) (?ns ! b)"
    then have "?ns ! a = ?ns ! b" using pf by (simp add: prefix_free_def)
    with ab pf show False by (simp add: prefix_free_def nth_eq_iff_index_eq)
  qed
  have above: "\<forall>j. 0 \<le> j \<and> j < int i \<longrightarrow> 0 < compare_entry ?bs crts ?p j"
  proof (intro allI impI)
    fix j :: int assume "0 \<le> j \<and> j < int i"
    then obtain a where a: "j = int a" "a < i" by (cases j) auto
    with i have aN: "a < ?N" by simp
    have "?ns ! a \<le> ?ns ! i" using sorted a i by (simp add: sorted_nth_mono)
    moreover have "\<not> prefix (?ns ! a) (?ns ! i)" using apart [OF aN i] a by simp
    ultimately have "differs_below (?ns ! a) (?ns ! i)"
      by (auto simp: less_bytes_iff strict_prefix_def le_less)
    then have "differs_below (subject_name ?bs crts a) (read_mem ?p ?k)"
      using name [OF aN] rd by simp
    then show "0 < compare_entry ?bs crts ?p j"
      using a by (simp add: compare_entry_eq memcmp_above)
  qed
  have below: "\<forall>j. int i < j \<and> j \<le> int ?N - 1 \<longrightarrow> compare_entry ?bs crts ?p j < 0"
  proof (intro allI impI)
    fix j :: int assume "int i < j \<and> j \<le> int ?N - 1"
    then obtain a where a: "j = int a" "i < a" "a < ?N" by (cases j) auto
    have "?ns ! i \<le> ?ns ! a" using sorted a by (simp add: sorted_nth_mono)
    moreover have "\<not> prefix (?ns ! i) (?ns ! a)" using apart [OF i a(3)] a by simp
    ultimately have "differs_below (?ns ! i) (?ns ! a)"
      by (auto simp: less_bytes_iff strict_prefix_def le_less)
    then have "differs_below (read_mem ?p ?k) (subject_name ?bs crts a)"
      using name [OF a(3)] rd by simp
    then show "compare_entry ?bs crts ?p j < 0"
      using a by (simp add: compare_entry_eq memcmp_below)
  qed
  have same: "compare_entry ?bs crts ?p (int i) = 0"
    using name [OF i] rd memcmp_prefix [of "subject_name ?bs crts i" ?p ?k]
    by (simp add: compare_entry_eq)
  have mid: "0 \<le> c_div2 (int ?N - 1) \<and> c_div2 (int ?N - 1) \<le> int ?N - 1"
    using i by (intro c_div2_initial) simp
  have "\<exists>evs'. bsearch_loop ?bs crts ?p 0 (int ?N - 1) (c_div2 (int ?N - 1)) 0 [] =
          (True, int i, entry_name_len ?bs crts (int i), evs' @ [Compare (int i)])"
    using i above below same mid by (intro bsearch_finds) simp_all
  moreover have "entry_name_len ?bs crts (int i) = length (?ns ! i)"
    using name [OF i] by (simp add: subject_name_def)
  ultimately show ?thesis
    using crts by (auto simp: find_entry_Some_crts)
qed

text \<open>The store after a successful load of an encoded bundle.\<close>

lemma loaded_store:
  assumes "init env bs st0 = (Inr (), st)"
  shows "bundleBytes st = bs" "bundle_num_certs st = format_count bs"
    "bundle_crts st = Some (map (format_cursor bs) [0..<format_count bs])"
  using assms by (auto simp: init_eq split: if_splits)

lemma subject_name_encoded:
  assumes "format_fits ps" "i < length ps"
  shows "subject_name (format_bundle ps) (map (format_cursor (format_bundle ps)) [0..<length ps]) i
           = fst (ps ! i)"
proof -
  let ?bs = "format_bundle ps"
  have c: "format_cursor ?bs i = format_entry_offset ps i"
    using assms by (simp add: cursor_encode_bundle)
  have len: "entry_name_len ?bs (map (format_cursor ?bs) [0..<length ps]) (int i) = length (fst (ps ! i))"
    using assms header_at_entry(1) [OF assms] c by (simp add: entry_name_len_def at_off_def)
  show ?thesis
  proof (rule nth_equalityI)
    show "length (subject_name ?bs (map (format_cursor ?bs) [0..<length ps]) i) = length (fst (ps ! i))"
      using len by (simp add: subject_name_def)
  next
    fix k assume "k < length (subject_name ?bs (map (format_cursor ?bs) [0..<length ps]) i)"
    then have k: "k < length (fst (ps ! i))" using len by (simp add: subject_name_def)
    then have "4 + k < length (format_entry (ps ! i))" by (simp add: length_encode_entry)
    from encode_bundle_at_entry [OF assms(2) this] k
    have "?bs ! (format_entry_offset ps i + (4 + k)) = fst (ps ! i) ! k"
      by (simp add: encode_entry_nth)
    then show "subject_name ?bs (map (format_cursor ?bs) [0..<length ps]) i ! k = fst (ps ! i) ! k"
      using k len assms(2) c by (simp add: subject_name_def at_off_def add.assoc)
  qed
qed

lemma public_key_encoded:
  assumes "format_fits ps" "i < length ps"
  shows "public_key (format_bundle ps) (map (format_cursor (format_bundle ps)) [0..<length ps]) i
           = snd (ps ! i)"
proof -
  let ?bs = "format_bundle ps"
  let ?crts = "map (format_cursor ?bs) [0..<length ps]"
  have c: "format_cursor ?bs i = format_entry_offset ps i"
    using assms by (simp add: cursor_encode_bundle)
  have nlen: "entry_name_len ?bs ?crts (int i) = length (fst (ps ! i))"
    using assms header_at_entry(1) [OF assms] c by (simp add: entry_name_len_def at_off_def)
  have klen: "entry_key_len ?bs ?crts (int i) = length (snd (ps ! i))"
    using assms header_at_entry(2) [OF assms] c by (simp add: entry_key_len_def at_off_def)
  show ?thesis
  proof (rule nth_equalityI)
    show "length (public_key ?bs ?crts i) = length (snd (ps ! i))"
      using klen by (simp add: public_key_def)
  next
    fix k assume "k < length (public_key ?bs ?crts i)"
    then have k: "k < length (snd (ps ! i))" using klen by (simp add: public_key_def)
    then have "4 + length (fst (ps ! i)) + k < length (format_entry (ps ! i))"
      by (simp add: length_encode_entry)
    from encode_bundle_at_entry [OF assms(2) this] k
    have "?bs ! (format_entry_offset ps i + (4 + length (fst (ps ! i)) + k)) = snd (ps ! i) ! k"
      by (simp add: encode_entry_nth)
    then show "public_key ?bs ?crts i ! k = snd (ps ! i) ! k"
      using k klen nlen assms(2) c by (simp add: public_key_def at_off_def add.assoc)
  qed
qed

lemma loaded_encoded_store:
  assumes load: "init env (format_bundle ps) st0 = (Inr (), st)" and enc: "format_fits ps"
  shows "bundle_num_certs st = length ps"
    and "bundle_crts st = Some (map (format_cursor (format_bundle ps)) [0..<length ps])"
    and "bundleBytes st = format_bundle ps"
    and "subject_names st = map fst ps"
proof -
  show n: "bundle_num_certs st = length ps"
    using loaded_store(2) [OF load] enc by (simp add: declared_count_encode_bundle)
  show c: "bundle_crts st = Some (map (format_cursor (format_bundle ps)) [0..<length ps])"
    using loaded_store(3) [OF load] enc by (simp add: declared_count_encode_bundle)
  show b: "bundleBytes st = format_bundle ps"
    using loaded_store(1) [OF load] .
  show "subject_names st = map fst ps"
    by (rule nth_equalityI) (simp_all add: subject_names_def n b c subject_name_encoded [OF enc])
qed

subsection \<open>The round trip\<close>

lemma verdict_found:
  assumes "flags AND NOT BADCERT_BAD_MD = BADCERT_NOT_TRUSTED"
    and "bundle_crts st = Some crts"
    and "find_entry st crt = Some (int i, nl)"
    and "public_key (bundleBytes st) crts i = key"
    and "entry_name_len (bundleBytes st) crts (int i) = nl"
  shows "\<exists>evs. crtVerifyCallback L st crt flags =
           (case crtCheckCertificate L crt (mem_of key) (length key) of
              (ret, calls) \<Rightarrow>
                if ret = 0 then (0, 0, evs @ calls)
                else (ERR_X509_FATAL_ERROR, flags, evs @ calls))"
proof -
  from assms(2,3) obtain evs where
    loop: "bsearch_loop (bundleBytes st) crts (buf_p (issuer_raw crt)) 0
             (int (bundle_num_certs st) - 1) (c_div2 (int (bundle_num_certs st) - 1)) 0 []
           = (True, int i, nl, evs)"
    by (auto simp: find_entry_Some_crts split: prod.splits if_splits)
  have "read_mem (at_off (bundleBytes st) (crts ! i + 4 + nl))
          (entry_key_len (bundleBytes st) crts (int i)) = read_mem (mem_of key) (length key)"
    using assms(4,5) by (simp add: public_key_def read_mem_mem_of)
  then have "crtCheckCertificate L crt (at_off (bundleBytes st) (crts ! i + 4 + nl))
               (entry_key_len (bundleBytes st) crts (int i)) =
             crtCheckCertificate L crt (mem_of key) (length key)"
    by (rule crtCheckCertificate_key_bytes)
  with assms(1,2) loop have "crtVerifyCallback L st crt flags =
           (case crtCheckCertificate L crt (mem_of key) (length key) of
              (ret, calls) \<Rightarrow>
                if ret = 0 then (0, 0, evs @ calls)
                else (ERR_X509_FATAL_ERROR, flags, evs @ calls))"
    by (simp add: crtVerifyCallback_def Let_def)
  then show ?thesis by (intro exI [of _ evs])
qed

text \<open>
  C2, as the code has it: take pairs whose names are sorted and of which none is a prefix
  of another (so they are distinct), encoded per the format. After a successful load, a
  lookup with the issuer equal to the name of pair \<open>i\<close> finds index slot \<open>i\<close> with that
  name's length, the key read for the signature check is the key of pair \<open>i\<close> in its
  recorded length, and the hook answers as the signature check with that key decides.
\<close>

theorem round_trip_lookup:
  assumes load: "init env (format_bundle ps) st0 = (Inr (), st)"
    and enc: "format_fits ps"
    and sorted: "sorted (map fst ps)"
    and pf: "prefix_free (map fst ps)"
    and i: "i < length ps"
    and issuer: "buf_bytes (issuer_raw crt) = fst (ps ! i)"
    and flags: "flags AND NOT BADCERT_BAD_MD = BADCERT_NOT_TRUSTED"
  shows "find_entry st crt = Some (int i, length (fst (ps ! i)))
         \<and> public_key (bundleBytes st) (the (bundle_crts st)) i = snd (ps ! i)
         \<and> (\<exists>evs. crtVerifyCallback L st crt flags =
               (case crtCheckCertificate L crt (mem_of (snd (ps ! i))) (length (snd (ps ! i))) of
                  (ret, calls) \<Rightarrow>
                    if ret = 0 then (0, 0, evs @ calls)
                    else (ERR_X509_FATAL_ERROR, flags, evs @ calls)))"
proof -
  let ?crts = "map (format_cursor (format_bundle ps)) [0..<length ps]"
  note st = loaded_encoded_store [OF load enc]
  have found: "find_entry st crt = Some (int i, length (fst (ps ! i)))"
    using lookup_finds_own_name [of st ?crts i crt] st sorted pf i issuer by simp
  have key: "public_key (bundleBytes st) ?crts i = snd (ps ! i)"
    using public_key_encoded [OF enc i] st by simp
  have nl: "entry_name_len (bundleBytes st) ?crts (int i) = length (fst (ps ! i))"
    using subject_name_encoded [OF enc i] st(3)
    by (simp add: subject_name_def) (metis length_read_mem)
  from verdict_found [OF flags st(2) found key nl] found key st(2)
  show ?thesis by simp
qed

lemma sample_round_trip:
  "init alloc_fine (format_bundle pairs_ABC) initial_store = (Inr (), store_ABC)
   \<and> sorted (map fst pairs_ABC) \<and> length pairs_ABC = 3
   \<and> buf_bytes (issuer_raw crt_by_B) = fst (pairs_ABC ! 1)
   \<and> snd (pairs_ABC ! 1) = [8] \<and> fst (pairs_ABC ! 1) = [66]
   \<and> crtCheckCertificate toy_lib crt_by_B (mem_of [8]) 1 =
        (0, [PkParsePublicKey, PkCanDo, MdInfoFromType, Md, MdGetSize, PkVerifyExt])"
  by code_simp

lemma sample_pairs_ok: "format_fits pairs_ABC \<and> prefix_free (map fst pairs_ABC)"
  by (simp add: format_fits_def prefix_free_def pairs_ABC_def)

theorem round_trip_lookup_witness:
  "find_entry store_ABC crt_by_B = Some (1, 1)
   \<and> public_key (bundleBytes store_ABC) (the (bundle_crts store_ABC)) 1 = [8]
   \<and> fst (crtVerifyCallback toy_lib store_ABC crt_by_B BADCERT_NOT_TRUSTED) = 0
   \<and> fst (snd (crtVerifyCallback toy_lib store_ABC crt_by_B BADCERT_NOT_TRUSTED)) = 0"
proof -
  have h: "BADCERT_NOT_TRUSTED AND NOT BADCERT_BAD_MD = BADCERT_NOT_TRUSTED"
    by (simp add: flag_defs)
  have load: "init alloc_fine (format_bundle pairs_ABC) initial_store = (Inr (), store_ABC)"
    and sorted: "sorted (map fst pairs_ABC)" and i: "1 < length pairs_ABC"
    and issuer: "buf_bytes (issuer_raw crt_by_B) = fst (pairs_ABC ! 1)"
    using sample_round_trip by simp_all
  have enc: "format_fits pairs_ABC" and pf: "prefix_free (map fst pairs_ABC)"
    using sample_pairs_ok by simp_all
  from round_trip_lookup [OF load enc sorted pf i issuer h, of toy_lib]
  show ?thesis using sample_round_trip by auto
qed

text \<open>
  Sorted names of which one starts another do not round-trip: with "A" and "AB" loaded,
  the lookup of "AB" stops at "A", and the key of "A" is checked instead of the key of
  "AB", which would have verified the certificate.
\<close>

lemma sample_shadowing:
  "sorted (map fst pairs_A_AB)
   \<and> init alloc_fine (format_bundle pairs_A_AB) initial_store = (Inr (), store_A_AB)
   \<and> buf_bytes (issuer_raw crt_by_AB) = fst (pairs_A_AB ! 1)
   \<and> find_entry store_A_AB crt_by_AB = Some (0, 1)
   \<and> public_key (bundleBytes store_A_AB) (the (bundle_crts store_A_AB)) 0 = [7]
   \<and> snd (pairs_A_AB ! 1) = [8]
   \<and> fst (crtCheckCertificate toy_lib crt_by_AB (mem_of (snd (pairs_A_AB ! 1))) 1) = 0
   \<and> fst (crtVerifyCallback toy_lib store_A_AB crt_by_AB BADCERT_NOT_TRUSTED)
        = ERR_X509_FATAL_ERROR"
  by code_simp

lemma sample_shadowing_encodable: "format_fits pairs_A_AB"
  by (simp add: format_fits_def pairs_A_AB_def)

theorem prefix_name_shadows_longer_name:
  "format_fits pairs_A_AB \<and> sorted (map fst pairs_A_AB)
   \<and> init alloc_fine (format_bundle pairs_A_AB) initial_store = (Inr (), store_A_AB)
   \<and> buf_bytes (issuer_raw crt_by_AB) = fst (pairs_A_AB ! 1)
   \<and> find_entry store_A_AB crt_by_AB = Some (0, 1)
   \<and> public_key (bundleBytes store_A_AB) (the (bundle_crts store_A_AB)) 0 = [7]
   \<and> snd (pairs_A_AB ! 1) = [8]
   \<and> fst (crtCheckCertificate toy_lib crt_by_AB (mem_of (snd (pairs_A_AB ! 1))) 1) = 0
   \<and> fst (crtVerifyCallback toy_lib store_A_AB crt_by_AB BADCERT_NOT_TRUSTED)
        = ERR_X509_FATAL_ERROR"
  using sample_shadowing sample_shadowing_encodable by blast

end
